theory Spec2Isabelle
  imports Main "HOL-Library.AList"
begin

section \<open>Replacement policies\<close>

text \<open>
  The three policies of \<^verbatim>\<open>eviction-policies/\<close> keep heap-allocated nodes in a doubly linked
  list together with an index \<^verbatim>\<open>cache: Map<K, Node>\<close> from each key to its node. The embedding
  keeps the chain of nodes as a HOL list, read from \<^verbatim>\<open>head\<close> following \<^verbatim>\<open>next\<close>; a node is the
  pair of its key and its value. The index is the lookup \<open>map_of\<close> on that list and
  \<^verbatim>\<open>cache.size\<close> is its length. Unlinking the node the index gives for a key is
  \<open>AList.delete\<close> of that key. A capacity is a JavaScript number; the configuration parses
  it with \<^verbatim>\<open>parseInt\<close>, so it is an \<open>int\<close> here and may be zero or negative.
\<close>

subsection \<open>LRU (\<^verbatim>\<open>lru.ts\<close>): head is the most recently used node, tail the victim\<close>

record ('k, 'v) LRUPolicy =
  lru_capacity :: int
  lru_nodes :: "('k \<times> 'v) list"

definition new_LRUPolicy :: "int \<Rightarrow> ('k, 'v) LRUPolicy" where
  "new_LRUPolicy capacity = \<lparr>lru_capacity = capacity, lru_nodes = []\<rparr>"

definition lru_addToHead :: "'k \<times> 'v \<Rightarrow> ('k, 'v) LRUPolicy \<Rightarrow> ('k, 'v) LRUPolicy" where
  "lru_addToHead node p = p\<lparr>lru_nodes := node # lru_nodes p\<rparr>"

definition lru_removeNode :: "'k \<Rightarrow> ('k, 'v) LRUPolicy \<Rightarrow> ('k, 'v) LRUPolicy" where
  "lru_removeNode k p = p\<lparr>lru_nodes := AList.delete k (lru_nodes p)\<rparr>"

definition lru_moveToHead :: "'k \<times> 'v \<Rightarrow> ('k, 'v) LRUPolicy \<Rightarrow> ('k, 'v) LRUPolicy" where
  "lru_moveToHead node p = lru_addToHead node (lru_removeNode (fst node) p)"

definition evictLRU :: "('k, 'v) LRUPolicy \<Rightarrow> 'k option \<times> ('k, 'v) LRUPolicy" where
  "evictLRU p =
     (if lru_nodes p = [] then (None, p)
      else let evictedKey = fst (last (lru_nodes p))
           in (Some evictedKey, lru_removeNode evictedKey p))"

definition lru_get :: "'k \<Rightarrow> ('k, 'v) LRUPolicy \<Rightarrow> 'v option \<times> ('k, 'v) LRUPolicy" where
  "lru_get key p =
     (case map_of (lru_nodes p) key of
        None \<Rightarrow> (None, p)
      | Some v \<Rightarrow> (Some v, lru_moveToHead (key, v) p))"

definition lru_set :: "'k \<Rightarrow> 'v \<Rightarrow> ('k, 'v) LRUPolicy \<Rightarrow> 'k option \<times> ('k, 'v) LRUPolicy" where
  "lru_set key v p =
     (case map_of (lru_nodes p) key of
        Some existing \<Rightarrow> (None, lru_moveToHead (key, v) p)
      | None \<Rightarrow>
          let (evictedKey, p1) =
                (if lru_capacity p > 0 \<and> int (length (lru_nodes p)) \<ge> lru_capacity p
                 then evictLRU p else (None, p))
          in if lru_capacity p = 0 then (None, p1)
             else (evictedKey, lru_addToHead (key, v) p1))"

definition lru_delete :: "'k \<Rightarrow> ('k, 'v) LRUPolicy \<Rightarrow> bool \<times> ('k, 'v) LRUPolicy" where
  "lru_delete key p =
     (case map_of (lru_nodes p) key of
        None \<Rightarrow> (False, p)
      | Some node \<Rightarrow> (True, lru_removeNode key p))"

definition lru_has :: "'k \<Rightarrow> ('k, 'v) LRUPolicy \<Rightarrow> bool" where
  "lru_has key p = (map_of (lru_nodes p) key \<noteq> None)"

definition lru_size :: "('k, 'v) LRUPolicy \<Rightarrow> nat" where
  "lru_size p = length (lru_nodes p)"

definition lru_clear :: "('k, 'v) LRUPolicy \<Rightarrow> ('k, 'v) LRUPolicy" where
  "lru_clear p = p\<lparr>lru_nodes := []\<rparr>"

subsection \<open>FIFO (\<^verbatim>\<open>fifo.ts\<close>): head is the oldest node and the victim, tail the newest\<close>

record ('k, 'v) FIFOPolicy =
  fifo_capacity :: int
  fifo_nodes :: "('k \<times> 'v) list"

definition new_FIFOPolicy :: "int \<Rightarrow> ('k, 'v) FIFOPolicy" where
  "new_FIFOPolicy capacity = \<lparr>fifo_capacity = capacity, fifo_nodes = []\<rparr>"

definition fifo_addToTail :: "'k \<times> 'v \<Rightarrow> ('k, 'v) FIFOPolicy \<Rightarrow> ('k, 'v) FIFOPolicy" where
  "fifo_addToTail node p = p\<lparr>fifo_nodes := fifo_nodes p @ [node]\<rparr>"

definition fifo_removeNode :: "'k \<Rightarrow> ('k, 'v) FIFOPolicy \<Rightarrow> ('k, 'v) FIFOPolicy" where
  "fifo_removeNode k p = p\<lparr>fifo_nodes := AList.delete k (fifo_nodes p)\<rparr>"

definition evictFIFO :: "('k, 'v) FIFOPolicy \<Rightarrow> 'k option \<times> ('k, 'v) FIFOPolicy" where
  "evictFIFO p =
     (case fifo_nodes p of
        [] \<Rightarrow> (None, p)
      | node # rest \<Rightarrow> (Some (fst node), fifo_removeNode (fst node) p))"

definition fifo_get :: "'k \<Rightarrow> ('k, 'v) FIFOPolicy \<Rightarrow> 'v option \<times> ('k, 'v) FIFOPolicy" where
  "fifo_get key p = (map_of (fifo_nodes p) key, p)"

definition fifo_set :: "'k \<Rightarrow> 'v \<Rightarrow> ('k, 'v) FIFOPolicy \<Rightarrow> 'k option \<times> ('k, 'v) FIFOPolicy" where
  "fifo_set key v p =
     (case map_of (fifo_nodes p) key of
        Some existing \<Rightarrow> (None, p\<lparr>fifo_nodes := AList.update key v (fifo_nodes p)\<rparr>)
      | None \<Rightarrow>
          let (evictedKey, p1) =
                (if fifo_capacity p > 0 \<and> int (length (fifo_nodes p)) \<ge> fifo_capacity p
                 then evictFIFO p else (None, p))
          in if fifo_capacity p = 0 then (None, p1)
             else (evictedKey, fifo_addToTail (key, v) p1))"

definition fifo_delete :: "'k \<Rightarrow> ('k, 'v) FIFOPolicy \<Rightarrow> bool \<times> ('k, 'v) FIFOPolicy" where
  "fifo_delete key p =
     (case map_of (fifo_nodes p) key of
        None \<Rightarrow> (False, p)
      | Some node \<Rightarrow> (True, fifo_removeNode key p))"

definition fifo_size :: "('k, 'v) FIFOPolicy \<Rightarrow> nat" where
  "fifo_size p = length (fifo_nodes p)"

definition fifo_clear :: "('k, 'v) FIFOPolicy \<Rightarrow> ('k, 'v) FIFOPolicy" where
  "fifo_clear p = p\<lparr>fifo_nodes := []\<rparr>"

subsection \<open>LFU (\<^verbatim>\<open>lfu.ts\<close>)\<close>

text \<open>
  \<^verbatim>\<open>cache\<close> maps a key to its node; the node's fields \<^verbatim>\<open>value\<close> and \<^verbatim>\<open>frequency\<close> are the pair
  stored under the key. \<^verbatim>\<open>frequencyMap\<close> maps a frequency to its list of nodes, head first;
  a node in a list is named by its key and its fields are read through \<open>lfu_cache\<close>.
  \<^verbatim>\<open>minFrequency\<close> is the scalar the victim is looked up with.
\<close>

record ('k, 'v) LFUPolicy =
  lfu_capacity :: int
  lfu_cache :: "('k \<times> ('v \<times> nat)) list"
  frequencyMap :: "nat \<Rightarrow> 'k list option"
  minFrequency :: nat

definition new_LFUPolicy :: "int \<Rightarrow> ('k, 'v) LFUPolicy" where
  "new_LFUPolicy capacity =
     \<lparr>lfu_capacity = capacity, lfu_cache = [], frequencyMap = (\<lambda>f. None), minFrequency = 0\<rparr>"

definition addToFrequencyList :: "'k \<Rightarrow> nat \<Rightarrow> ('k, 'v) LFUPolicy \<Rightarrow> ('k, 'v) LFUPolicy" where
  "addToFrequencyList key frequency p =
     (let freqList = (case frequencyMap p frequency of None \<Rightarrow> [] | Some l \<Rightarrow> l)
      in p\<lparr>frequencyMap := (frequencyMap p)(frequency \<mapsto> freqList @ [key])\<rparr>)"

text \<open>
  \<^verbatim>\<open>removeFromFrequencyList(node)\<close> looks the list up under \<^verbatim>\<open>node.frequency\<close>, unlinks the
  node (\<open>remove1\<close> of its key) and drops the list from the map when its head has become
  null. The callers pass the key of the node and the frequency the node records; \<^verbatim>\<open>evictLFU\<close>
  reads the frequency of the head node of the minimum list through \<open>lfu_cache\<close>, where
  every key on a list is found (\<open>lfu_ok\<close> below, kept by every operation).
\<close>

definition removeFromFrequencyList :: "'k \<Rightarrow> nat \<Rightarrow> ('k, 'v) LFUPolicy \<Rightarrow> ('k, 'v) LFUPolicy" where
  "removeFromFrequencyList key frequency p =
     (case frequencyMap p frequency of
        None \<Rightarrow> p
      | Some freqList \<Rightarrow>
          let rest = remove1 key freqList
          in if rest = [] then p\<lparr>frequencyMap := (frequencyMap p)(frequency := None)\<rparr>
             else p\<lparr>frequencyMap := (frequencyMap p)(frequency \<mapsto> rest)\<rparr>)"

definition increaseFrequency :: "'k \<Rightarrow> 'v \<Rightarrow> nat \<Rightarrow> ('k, 'v) LFUPolicy \<Rightarrow> ('k, 'v) LFUPolicy" where
  "increaseFrequency key v oldFrequency p =
     (let newFrequency = oldFrequency + 1;
          p1 = removeFromFrequencyList key oldFrequency p;
          p2 = p1\<lparr>lfu_cache := AList.update key (v, newFrequency) (lfu_cache p1)\<rparr>;
          p3 = addToFrequencyList key newFrequency p2
      in if oldFrequency = minFrequency p3 \<and> frequencyMap p3 oldFrequency = None
         then p3\<lparr>minFrequency := newFrequency\<rparr> else p3)"

definition evictLFU :: "('k, 'v) LFUPolicy \<Rightarrow> 'k option \<times> ('k, 'v) LFUPolicy" where
  "evictLFU p =
     (if minFrequency p = 0 then (None, p)
      else case frequencyMap p (minFrequency p) of
             None \<Rightarrow> (None, p)
           | Some [] \<Rightarrow> (None, p)
           | Some (evictedKey # rest) \<Rightarrow>
               let frequency = (case map_of (lfu_cache p) evictedKey of
                                  Some (v, f) \<Rightarrow> f | None \<Rightarrow> minFrequency p);
                   p1 = removeFromFrequencyList evictedKey frequency p
               in (Some evictedKey, p1\<lparr>lfu_cache := AList.delete evictedKey (lfu_cache p1)\<rparr>))"

definition lfu_get :: "'k \<Rightarrow> ('k, 'v) LFUPolicy \<Rightarrow> 'v option \<times> ('k, 'v) LFUPolicy" where
  "lfu_get key p =
     (case map_of (lfu_cache p) key of
        None \<Rightarrow> (None, p)
      | Some (v, frequency) \<Rightarrow> (Some v, increaseFrequency key v frequency p))"

definition lfu_set :: "'k \<Rightarrow> 'v \<Rightarrow> ('k, 'v) LFUPolicy \<Rightarrow> 'k option \<times> ('k, 'v) LFUPolicy" where
  "lfu_set key v p =
     (case map_of (lfu_cache p) key of
        Some (old, frequency) \<Rightarrow> (None, increaseFrequency key v frequency p)
      | None \<Rightarrow>
          let (evictedKey, p1) =
                (if lfu_capacity p > 0 \<and> int (length (lfu_cache p)) \<ge> lfu_capacity p
                 then evictLFU p else (None, p))
          in if lfu_capacity p = 0 then (None, p1)
             else let p2 = p1\<lparr>lfu_cache := AList.update key (v, 1) (lfu_cache p1)\<rparr>;
                      p3 = addToFrequencyList key 1 p2
                  in (evictedKey,
                      if minFrequency p3 = 0 \<or> minFrequency p3 > 1
                      then p3\<lparr>minFrequency := 1\<rparr> else p3))"

definition lfu_delete :: "'k \<Rightarrow> ('k, 'v) LFUPolicy \<Rightarrow> bool \<times> ('k, 'v) LFUPolicy" where
  "lfu_delete key p =
     (case map_of (lfu_cache p) key of
        None \<Rightarrow> (False, p)
      | Some (v, frequency) \<Rightarrow>
          let p1 = removeFromFrequencyList key frequency p;
              p2 = p1\<lparr>lfu_cache := AList.delete key (lfu_cache p1)\<rparr>
          in (True,
              if minFrequency p2 > 0 \<and> frequencyMap p2 (minFrequency p2) = None
              then p2\<lparr>minFrequency := minFrequency p2 + 1\<rparr> else p2))"

definition lfu_has :: "'k \<Rightarrow> ('k, 'v) LFUPolicy \<Rightarrow> bool" where
  "lfu_has key p = (map_of (lfu_cache p) key \<noteq> None)"

definition lfu_size :: "('k, 'v) LFUPolicy \<Rightarrow> nat" where
  "lfu_size p = length (lfu_cache p)"

definition lfu_clear :: "('k, 'v) LFUPolicy \<Rightarrow> ('k, 'v) LFUPolicy" where
  "lfu_clear p = p\<lparr>lfu_cache := [], frequencyMap := (\<lambda>f. None), minFrequency := 0\<rparr>"

subsection \<open>The policy the engine holds (\<^verbatim>\<open>EvictionPolicy<K, V>\<close> of \<^verbatim>\<open>types.ts\<close>)\<close>

datatype ('k, 'v) EvictionPolicy =
    PolicyLRU "('k, 'v) LRUPolicy"
  | PolicyLFU "('k, 'v) LFUPolicy"
  | PolicyFIFO "('k, 'v) FIFOPolicy"

definition policy_get :: "'k \<Rightarrow> ('k, 'v) EvictionPolicy \<Rightarrow> 'v option \<times> ('k, 'v) EvictionPolicy" where
  "policy_get key pol =
     (case pol of
        PolicyLRU p \<Rightarrow> (let (r, p') = lru_get key p in (r, PolicyLRU p'))
      | PolicyLFU p \<Rightarrow> (let (r, p') = lfu_get key p in (r, PolicyLFU p'))
      | PolicyFIFO p \<Rightarrow> (let (r, p') = fifo_get key p in (r, PolicyFIFO p')))"

definition policy_set ::
  "'k \<Rightarrow> 'v \<Rightarrow> ('k, 'v) EvictionPolicy \<Rightarrow> 'k option \<times> ('k, 'v) EvictionPolicy" where
  "policy_set key v pol =
     (case pol of
        PolicyLRU p \<Rightarrow> (let (r, p') = lru_set key v p in (r, PolicyLRU p'))
      | PolicyLFU p \<Rightarrow> (let (r, p') = lfu_set key v p in (r, PolicyLFU p'))
      | PolicyFIFO p \<Rightarrow> (let (r, p') = fifo_set key v p in (r, PolicyFIFO p')))"

definition policy_delete :: "'k \<Rightarrow> ('k, 'v) EvictionPolicy \<Rightarrow> bool \<times> ('k, 'v) EvictionPolicy" where
  "policy_delete key pol =
     (case pol of
        PolicyLRU p \<Rightarrow> (let (r, p') = lru_delete key p in (r, PolicyLRU p'))
      | PolicyLFU p \<Rightarrow> (let (r, p') = lfu_delete key p in (r, PolicyLFU p'))
      | PolicyFIFO p \<Rightarrow> (let (r, p') = fifo_delete key p in (r, PolicyFIFO p')))"

definition policy_evict :: "('k, 'v) EvictionPolicy \<Rightarrow> 'k option \<times> ('k, 'v) EvictionPolicy" where
  "policy_evict pol =
     (case pol of
        PolicyLRU p \<Rightarrow> (let (r, p') = evictLRU p in (r, PolicyLRU p'))
      | PolicyLFU p \<Rightarrow> (let (r, p') = evictLFU p in (r, PolicyLFU p'))
      | PolicyFIFO p \<Rightarrow> (let (r, p') = evictFIFO p in (r, PolicyFIFO p')))"

definition policy_clear :: "('k, 'v) EvictionPolicy \<Rightarrow> ('k, 'v) EvictionPolicy" where
  "policy_clear pol =
     (case pol of
        PolicyLRU p \<Rightarrow> PolicyLRU (lru_clear p)
      | PolicyLFU p \<Rightarrow> PolicyLFU (lfu_clear p)
      | PolicyFIFO p \<Rightarrow> PolicyFIFO (fifo_clear p))"

definition policy_size :: "('k, 'v) EvictionPolicy \<Rightarrow> nat" where
  "policy_size pol =
     (case pol of
        PolicyLRU p \<Rightarrow> lru_size p
      | PolicyLFU p \<Rightarrow> lfu_size p
      | PolicyFIFO p \<Rightarrow> fifo_size p)"

definition policy_keys :: "('k, 'v) EvictionPolicy \<Rightarrow> 'k list" where
  "policy_keys pol =
     (case pol of
        PolicyLRU p \<Rightarrow> map fst (lru_nodes p)
      | PolicyLFU p \<Rightarrow> map fst (lfu_cache p)
      | PolicyFIFO p \<Rightarrow> map fst (fifo_nodes p))"

section \<open>Statistics (\<^verbatim>\<open>statistics.ts\<close>)\<close>

record StatisticsTracker =
  hits :: nat
  misses :: nat
  evictions :: nat
  expirations :: nat
  operations :: "nat list"

definition new_StatisticsTracker :: StatisticsTracker where
  "new_StatisticsTracker = \<lparr>hits = 0, misses = 0, evictions = 0, expirations = 0, operations = []\<rparr>"

definition recordOperation :: "nat \<Rightarrow> StatisticsTracker \<Rightarrow> StatisticsTracker" where
  "recordOperation now st =
     st\<lparr>operations := filter (\<lambda>time. int time > int now - 10000) (operations st @ [now])\<rparr>"

definition recordHit :: "nat \<Rightarrow> StatisticsTracker \<Rightarrow> StatisticsTracker" where
  "recordHit now st = recordOperation now (st\<lparr>hits := hits st + 1\<rparr>)"

definition recordMiss :: "nat \<Rightarrow> StatisticsTracker \<Rightarrow> StatisticsTracker" where
  "recordMiss now st = recordOperation now (st\<lparr>misses := misses st + 1\<rparr>)"

definition recordEviction :: "StatisticsTracker \<Rightarrow> StatisticsTracker" where
  "recordEviction st = st\<lparr>evictions := evictions st + 1\<rparr>"

definition recordExpiration :: "StatisticsTracker \<Rightarrow> StatisticsTracker" where
  "recordExpiration st = st\<lparr>expirations := expirations st + 1\<rparr>"

section \<open>The cache engine (\<^verbatim>\<open>cache/engine.ts\<close>)\<close>

text \<open>
  Values are JSON values; the number type is a parameter \<open>'n\<close>, so nothing below depends
  on how a JavaScript number adds. A string is the sequence of its UTF-8 bytes, so
  \<^verbatim>\<open>Buffer.byteLength(s, 'utf8')\<close> is \<open>length s\<close>. The \<^verbatim>\<open>null\<close> that \<^verbatim>\<open>get\<close> returns for a miss
  is the value \<open>JNull\<close>.
\<close>

datatype 'n json =
    JNull
  | JBool bool
  | JNum 'n
  | JStr string
  | JArray "'n json list"
  | JObject "(string \<times> 'n json) list"

fun estimateValueSize :: "'n json \<Rightarrow> nat" where
  "estimateValueSize JNull = 8"
| "estimateValueSize (JBool b) = 1"
| "estimateValueSize (JNum n) = 8"
| "estimateValueSize (JStr s) = length s"
| "estimateValueSize (JArray items) =
     foldl (\<lambda>size item. size + estimateValueSize item) 16 items"
| "estimateValueSize (JObject props) =
     foldl (\<lambda>size prop. size + (length (fst prop) + estimateValueSize (snd prop))) 16 props"

definition calculateEntrySize :: "string \<Rightarrow> 'n json \<Rightarrow> nat" where
  "calculateEntrySize key v =
     (let keySize = length key; valueSize = estimateValueSize v; overhead = 64
      in keySize + valueSize + overhead)"

record 'n CacheEntry =
  entry_value :: "'n json"
  expiresAt :: "nat option"
  entry_size :: nat

datatype PolicyName = LRU | LFU | FIFO

record CacheConfig =
  maxMemoryMB :: int
  maxKeys :: int
  evictionPolicyName :: PolicyName

text \<open>
  The node value the engine hands to its policy is a reference to the entry object that
  the store holds under the same key, and the engine never reads it back (it drops the
  result of \<^verbatim>\<open>evictionPolicy.get\<close>), so the policy of the engine stores \<open>()\<close> for it.
  The configuration reads \<^verbatim>\<open>MAX_MEMORY_MB\<close> and \<^verbatim>\<open>MAX_KEYS\<close> with \<^verbatim>\<open>parseInt\<close>, so both are an
  \<open>int\<close> and may be zero or negative. \<^verbatim>\<open>maxMemoryBytes\<close> is an integer of absolute value
  below \<open>2^53\<close>; for such a number \<^verbatim>\<open>Math.floor(maxMemoryBytes * 0.9)\<close> is
  \<open>9 * maxMemoryBytes div 10\<close>, where \<open>div\<close> rounds down as \<^verbatim>\<open>Math.floor\<close> does.
\<close>

record 'n CacheEngine =
  store :: "(string \<times> 'n CacheEntry) list"
  evictionPolicy :: "(string, unit) EvictionPolicy"
  stats :: StatisticsTracker
  maxMemoryBytes :: int
  currentMemoryBytes :: int
  memoryThreshold :: int

definition createEvictionPolicy :: "CacheConfig \<Rightarrow> (string, unit) EvictionPolicy" where
  "createEvictionPolicy cfg =
     (let capacity = maxKeys cfg
      in case evictionPolicyName cfg of
           LRU \<Rightarrow> PolicyLRU (new_LRUPolicy capacity)
         | LFU \<Rightarrow> PolicyLFU (new_LFUPolicy capacity)
         | FIFO \<Rightarrow> PolicyFIFO (new_FIFOPolicy capacity))"

definition new_CacheEngine :: "CacheConfig \<Rightarrow> 'n CacheEngine" where
  "new_CacheEngine cfg =
     \<lparr>store = [],
      evictionPolicy = createEvictionPolicy cfg,
      stats = new_StatisticsTracker,
      maxMemoryBytes = maxMemoryMB cfg * 1024 * 1024,
      currentMemoryBytes = 0,
      memoryThreshold = (maxMemoryMB cfg * 1024 * 1024 * 9) div 10\<rparr>"

text \<open>\<^verbatim>\<open>entry.expiresAt && Date.now() > entry.expiresAt\<close>: an absent or zero instant is falsy.\<close>

definition isExpired :: "'n CacheEntry \<Rightarrow> nat \<Rightarrow> bool" where
  "isExpired entry now = (case expiresAt entry of None \<Rightarrow> False | Some t \<Rightarrow> t \<noteq> 0 \<and> now > t)"

definition engine_delete :: "string \<Rightarrow> 'n CacheEngine \<Rightarrow> bool \<times> 'n CacheEngine" where
  "engine_delete key s =
     (case map_of (store s) key of
        None \<Rightarrow> (False, s)
      | Some entry \<Rightarrow>
          (True, s\<lparr>currentMemoryBytes := currentMemoryBytes s - int (entry_size entry),
                   store := AList.delete key (store s),
                   evictionPolicy := snd (policy_delete key (evictionPolicy s))\<rparr>))"

definition engine_get :: "string \<Rightarrow> nat \<Rightarrow> 'n CacheEngine \<Rightarrow> 'n json \<times> 'n CacheEngine" where
  "engine_get key now s =
     (case map_of (store s) key of
        None \<Rightarrow> (JNull, s\<lparr>stats := recordMiss now (stats s)\<rparr>)
      | Some entry \<Rightarrow>
          if isExpired entry now then
            (let s1 = snd (engine_delete key s)
             in (JNull, s1\<lparr>stats := recordMiss now (recordExpiration (stats s1))\<rparr>))
          else
            (entry_value entry,
             s\<lparr>evictionPolicy := snd (policy_get key (evictionPolicy s)),
               stats := recordHit now (stats s)\<rparr>))"

text \<open>
  \<^verbatim>\<open>evictOne\<close>: \<^verbatim>\<open>if (!keyToEvict) return undefined\<close> is taken for \<^verbatim>\<open>undefined\<close> and for the
  empty string, the one falsy key.
\<close>

definition evictOne :: "'n CacheEngine \<Rightarrow> string option \<times> 'n CacheEngine" where
  "evictOne s =
     (let (keyToEvict, pol) = policy_evict (evictionPolicy s);
          s1 = s\<lparr>evictionPolicy := pol\<rparr>
      in case keyToEvict of
           None \<Rightarrow> (None, s1)
         | Some k \<Rightarrow>
             if k = [] then (None, s1)
             else (case map_of (store s1) k of
                     Some entry \<Rightarrow>
                       (Some k,
                        s1\<lparr>currentMemoryBytes := currentMemoryBytes s1 - int (entry_size entry),
                           store := AList.delete k (store s1),
                           stats := recordEviction (stats s1)\<rparr>)
                   | None \<Rightarrow> (None, s1)))"

lemma length_delete_less:
  "map_of al k = Some v \<Longrightarrow> length (AList.delete k al) < length al"
proof (induction al)
  case Nil
  then show ?case by simp
next
  case (Cons a al)
  show ?case
  proof (cases "fst a = k")
    case True
    have "length (AList.delete k al) \<le> length al" by (rule AList.length_delete_le)
    then show ?thesis using True by (cases a) (simp add: less_Suc_eq_le)
  next
    case False
    then show ?thesis using Cons by (cases a) (auto simp: AList.delete_eq)
  qed
qed

lemma evictOne_store_shorter:
  "evictOne s = (Some k, s1) \<Longrightarrow> length (store s1) < length (store s)"
  by (auto simp: evictOne_def Let_def length_delete_less
           split: prod.splits option.splits if_splits)

text \<open>
  \<^verbatim>\<open>enforceMemoryLimit\<close>: the \<^verbatim>\<open>while\<close> loop evicts as long as the entry does not fit under
  the threshold and the store is not empty; it breaks when \<^verbatim>\<open>evictOne\<close> returns no key.
\<close>

function enforceMemoryLimit :: "nat \<Rightarrow> 'n CacheEngine \<Rightarrow> 'n CacheEngine" where
  "enforceMemoryLimit requiredSpace s =
     (if currentMemoryBytes s + int requiredSpace > memoryThreshold s \<and> length (store s) > 0
      then (case evictOne s of
              (None, s1) \<Rightarrow> s1
            | (Some evictedKey, s1) \<Rightarrow> enforceMemoryLimit requiredSpace s1)
      else s)"
  by pat_completeness auto
termination
  by (relation "measure (\<lambda>(requiredSpace, s). length (store s))")
     (auto dest: evictOne_store_shorter sym)

declare enforceMemoryLimit.simps [simp del]

text \<open>
  \<^verbatim>\<open>set\<close>: \<^verbatim>\<open>options.ttl ? now + options.ttl : undefined\<close> takes an absent and a zero ttl for
  no ttl; \<^verbatim>\<open>if (evictedKey)\<close> is false for \<^verbatim>\<open>undefined\<close> and for the empty string.
\<close>

definition engine_set ::
  "string \<Rightarrow> 'n json \<Rightarrow> nat option \<Rightarrow> nat \<Rightarrow> 'n CacheEngine \<Rightarrow> bool \<times> 'n CacheEngine" where
  "engine_set key v ttl now s =
     (let expires = (case ttl of None \<Rightarrow> None | Some t \<Rightarrow> if t \<noteq> 0 then Some (now + t) else None);
          entrySize = calculateEntrySize key v;
          s1 = (if currentMemoryBytes s + int entrySize > memoryThreshold s
                then enforceMemoryLimit entrySize s else s);
          entry = \<lparr>entry_value = v, expiresAt = expires, entry_size = entrySize\<rparr>
      in case map_of (store s1) key of
           Some existingEntry \<Rightarrow>
             (True,
              s1\<lparr>currentMemoryBytes :=
                    currentMemoryBytes s1 - int (entry_size existingEntry) + int entrySize,
                 store := AList.update key entry (store s1),
                 evictionPolicy := snd (policy_set key () (evictionPolicy s1))\<rparr>)
         | None \<Rightarrow>
             (let s2 = s1\<lparr>store := AList.update key entry (store s1),
                         currentMemoryBytes := currentMemoryBytes s1 + int entrySize\<rparr>;
                  (evictedKey, pol) = policy_set key () (evictionPolicy s2);
                  s3 = s2\<lparr>evictionPolicy := pol\<rparr>
              in (True,
                  case evictedKey of
                    None \<Rightarrow> s3
                  | Some k \<Rightarrow>
                      if k = [] then s3
                      else (case map_of (store s3) k of
                              Some evictedEntry \<Rightarrow>
                                s3\<lparr>currentMemoryBytes :=
                                      currentMemoryBytes s3 - int (entry_size evictedEntry),
                                   store := AList.delete k (store s3),
                                   stats := recordEviction (stats s3)\<rparr>
                            | None \<Rightarrow> s3))))"

definition engine_exists :: "string \<Rightarrow> nat \<Rightarrow> 'n CacheEngine \<Rightarrow> bool \<times> 'n CacheEngine" where
  "engine_exists key now s =
     (case map_of (store s) key of
        None \<Rightarrow> (False, s)
      | Some entry \<Rightarrow>
          if isExpired entry now then
            (let s1 = snd (engine_delete key s)
             in (False, s1\<lparr>stats := recordExpiration (stats s1)\<rparr>))
          else (True, s))"

datatype engine_error = NonNumericValue

text \<open>
  \<^verbatim>\<open>increment\<close> reads through \<^verbatim>\<open>get\<close> and writes through \<^verbatim>\<open>set\<close> with no ttl; a throw leaves
  the state as \<^verbatim>\<open>get\<close> left it.
\<close>

definition increment ::
  "string \<Rightarrow> 'n::plus \<Rightarrow> nat \<Rightarrow> 'n CacheEngine \<Rightarrow> (engine_error + 'n) \<times> 'n CacheEngine" where
  "increment key amount now s =
     (let (currentValue, s1) = engine_get key now s
      in if currentValue = JNull then (Inr amount, snd (engine_set key (JNum amount) None now s1))
         else (case currentValue of
                 JNum n \<Rightarrow>
                   (let newValue = n + amount
                    in (Inr newValue, snd (engine_set key (JNum newValue) None now s1)))
               | _ \<Rightarrow> (Inl NonNumericValue, s1)))"

definition updateTTL :: "string \<Rightarrow> nat \<Rightarrow> nat \<Rightarrow> 'n CacheEngine \<Rightarrow> bool \<times> 'n CacheEngine" where
  "updateTTL key ttl now s =
     (case map_of (store s) key of
        None \<Rightarrow> (False, s)
      | Some entry \<Rightarrow>
          (True, s\<lparr>store := AList.update key (entry\<lparr>expiresAt := Some (now + ttl)\<rparr>) (store s)\<rparr>))"

definition engine_clear :: "'n CacheEngine \<Rightarrow> 'n CacheEngine" where
  "engine_clear s =
     s\<lparr>store := [], evictionPolicy := policy_clear (evictionPolicy s), currentMemoryBytes := 0\<rparr>"

definition engine_keys :: "'n CacheEngine \<Rightarrow> string list" where
  "engine_keys s = map fst (store s)"

text \<open>
  The batch operations loop over their argument. Each call of \<^verbatim>\<open>get\<close> and \<^verbatim>\<open>set\<close> reads
  \<^verbatim>\<open>Date.now()\<close> for itself, so every element comes with the instant its call reads. The
  result object of \<^verbatim>\<open>getMultiple\<close> is an association list.
\<close>

fun getMultiple_loop ::
  "(string \<times> nat) list \<Rightarrow> (string \<times> 'n json) list \<Rightarrow> 'n CacheEngine
     \<Rightarrow> (string \<times> 'n json) list \<times> 'n CacheEngine" where
  "getMultiple_loop [] result s = (result, s)"
| "getMultiple_loop ((key, now) # rest) result s =
     (let (v, s1) = engine_get key now s
      in getMultiple_loop rest (if v \<noteq> JNull then AList.update key v result else result) s1)"

definition getMultiple ::
  "(string \<times> nat) list \<Rightarrow> 'n CacheEngine \<Rightarrow> (string \<times> 'n json) list \<times> 'n CacheEngine" where
  "getMultiple keys s = getMultiple_loop keys [] s"

fun setMultiple ::
  "((string \<times> 'n json \<times> nat option) \<times> nat) list \<Rightarrow> 'n CacheEngine \<Rightarrow> bool \<times> 'n CacheEngine" where
  "setMultiple [] s = (True, s)"
| "setMultiple (((key, v, ttl), now) # rest) s =
     setMultiple rest (snd (engine_set key v ttl now s))"

fun deleteMultiple_loop ::
  "string list \<Rightarrow> string list \<Rightarrow> 'n CacheEngine \<Rightarrow> string list \<times> 'n CacheEngine" where
  "deleteMultiple_loop [] deletedKeys s = (deletedKeys, s)"
| "deleteMultiple_loop (key # rest) deletedKeys s =
     (let (deleted, s1) = engine_delete key s
      in deleteMultiple_loop rest (if deleted then deletedKeys @ [key] else deletedKeys) s1)"

definition deleteMultiple :: "string list \<Rightarrow> 'n CacheEngine \<Rightarrow> string list \<times> 'n CacheEngine" where
  "deleteMultiple keys s = deleteMultiple_loop keys [] s"

text \<open>
  \<^verbatim>\<open>cleanup\<close> walks \<^verbatim>\<open>store.entries()\<close> and deletes the entry it stands on when that is
  expired; no other entry changes during the walk, so the walk is over the entries the store
  holds when it starts.
\<close>

fun cleanup_loop ::
  "(string \<times> 'n CacheEntry) list \<Rightarrow> nat \<Rightarrow> nat \<Rightarrow> 'n CacheEngine \<Rightarrow> nat \<times> 'n CacheEngine" where
  "cleanup_loop [] now cleaned s = (cleaned, s)"
| "cleanup_loop ((key, entry) # rest) now cleaned s =
     (if isExpired entry now then
        (let s1 = snd (engine_delete key s)
         in cleanup_loop rest now (cleaned + 1) (s1\<lparr>stats := recordExpiration (stats s1)\<rparr>))
      else cleanup_loop rest now cleaned s)"

definition cleanup :: "nat \<Rightarrow> 'n CacheEngine \<Rightarrow> nat \<times> 'n CacheEngine" where
  "cleanup now s = cleanup_loop (store s) now 0 s"

subsection \<open>Sequences of public operations\<close>

datatype 'n operation =
    Get string nat
  | Set string "'n json" "nat option" nat
  | Delete string
  | Exists string nat
  | Increment string 'n nat
  | UpdateTTL string nat nat
  | Clear
  | Keys
  | Cleanup nat
  | GetMultiple "(string \<times> nat) list"
  | SetMultiple "((string \<times> 'n json \<times> nat option) \<times> nat) list"
  | DeleteMultiple "string list"

fun perform :: "'n::plus CacheEngine \<Rightarrow> 'n operation \<Rightarrow> 'n CacheEngine" where
  "perform s (Get key now) = snd (engine_get key now s)"
| "perform s (Set key v ttl now) = snd (engine_set key v ttl now s)"
| "perform s (Delete key) = snd (engine_delete key s)"
| "perform s (Exists key now) = snd (engine_exists key now s)"
| "perform s (Increment key amount now) = snd (increment key amount now s)"
| "perform s (UpdateTTL key ttl now) = snd (updateTTL key ttl now s)"
| "perform s Clear = engine_clear s"
| "perform s Keys = s"
| "perform s (Cleanup now) = snd (cleanup now s)"
| "perform s (GetMultiple keys) = snd (getMultiple keys s)"
| "perform s (SetMultiple entries) = snd (setMultiple entries s)"
| "perform s (DeleteMultiple keys) = snd (deleteMultiple keys s)"

definition run :: "CacheConfig \<Rightarrow> 'n::plus operation list \<Rightarrow> 'n CacheEngine" where
  "run cfg ops = foldl perform (new_CacheEngine cfg) ops"

section \<open>Notions used in the statements\<close>

subsection \<open>Histories of a policy and the last access of a key\<close>

text \<open>
  A history of one policy is a list of the calls made on it since \<^verbatim>\<open>new LRUPolicy(capacity)\<close>.
  \<open>last_access ops k\<close> is the position in the history (counted from 1) of the last
  \<^verbatim>\<open>get(k)\<close> or \<^verbatim>\<open>set(k, _)\<close>, the two calls that touch a key, and 0 when there is none. For a
  resident key that is its last access, or its insertion when it was not accessed since.
\<close>

datatype ('k, 'v) policy_op = PGet 'k | PSet 'k 'v | PDelete 'k | PEvict

fun lru_step :: "('k, 'v) LRUPolicy \<Rightarrow> ('k, 'v) policy_op \<Rightarrow> ('k, 'v) LRUPolicy" where
  "lru_step p (PGet k) = snd (lru_get k p)"
| "lru_step p (PSet k v) = snd (lru_set k v p)"
| "lru_step p (PDelete k) = snd (lru_delete k p)"
| "lru_step p PEvict = snd (evictLRU p)"

definition lru_run :: "int \<Rightarrow> ('k, 'v) policy_op list \<Rightarrow> ('k, 'v) LRUPolicy" where
  "lru_run capacity ops = foldl lru_step (new_LRUPolicy capacity) ops"

fun touches :: "'k \<Rightarrow> ('k, 'v) policy_op \<Rightarrow> bool" where
  "touches k (PGet k') = (k = k')"
| "touches k (PSet k' v) = (k = k')"
| "touches k (PDelete k') = False"
| "touches k PEvict = False"

definition last_access :: "('k, 'v) policy_op list \<Rightarrow> 'k \<Rightarrow> nat" where
  "last_access ops k = length (dropWhile (\<lambda>op. \<not> touches k op) (rev ops))"

definition lru_ordered :: "('k, 'v) policy_op list \<Rightarrow> ('k, 'v) LRUPolicy \<Rightarrow> bool" where
  "lru_ordered ops p =
     sorted_wrt (\<lambda>a b. last_access ops b < last_access ops a) (map fst (lru_nodes p))"

definition lru_history :: "(string, nat) policy_op list" where
  "lru_history = [PSet ''a'' 1, PSet ''b'' 2, PSet ''c'' 3, PGet ''a'', PSet ''d'' 4]"

subsection \<open>Histories of an LFU policy\<close>

fun lfu_step :: "('k, 'v) LFUPolicy \<Rightarrow> ('k, 'v) policy_op \<Rightarrow> ('k, 'v) LFUPolicy" where
  "lfu_step p (PGet k) = snd (lfu_get k p)"
| "lfu_step p (PSet k v) = snd (lfu_set k v p)"
| "lfu_step p (PDelete k) = snd (lfu_delete k p)"
| "lfu_step p PEvict = snd (evictLFU p)"

definition lfu_run :: "int \<Rightarrow> ('k, 'v) policy_op list \<Rightarrow> ('k, 'v) LFUPolicy" where
  "lfu_run capacity ops = foldl lfu_step (new_LFUPolicy capacity) ops"

text \<open>
  The history: \<^verbatim>\<open>set(a)\<close>, \<^verbatim>\<open>set(b)\<close>, \<^verbatim>\<open>get(b)\<close> twice, \<^verbatim>\<open>delete(a)\<close>. Key \<open>b\<close> is then alone,
  at frequency 3.
\<close>

definition lfu_history :: "(string, nat) policy_op list" where
  "lfu_history = [PSet ''a'' 1, PSet ''b'' 2, PGet ''b'', PGet ''b'', PDelete ''a'']"

subsection \<open>A configuration with \<^verbatim>\<open>maxKeys = 0\<close>\<close>

definition disabled_config :: CacheConfig where
  "disabled_config = \<lparr>maxMemoryMB = 1, maxKeys = 0, evictionPolicyName = LRU\<rparr>"

subsection \<open>A batch as single operations\<close>

text \<open>
  The specification's reading of a batch: one \<^verbatim>\<open>SET\<close> operation per element, in order,
  each at the instant its call reads.
\<close>

definition individual_sets ::
  "((string \<times> 'n json \<times> nat option) \<times> nat) list \<Rightarrow> 'n operation list" where
  "individual_sets entries = map (\<lambda>((key, v, ttl), now). Set key v ttl now) entries"

subsection \<open>Well-formed policies\<close>

text \<open>
  \<open>lfu_ok\<close>: no frequency list holds a key twice, and a key on the list of frequency \<open>f\<close> is
  a key of \<open>lfu_cache\<close> whose node has frequency \<open>f\<close>. \<open>policy_ok\<close> adds that the keys of
  the policy are distinct. \<open>evicts_by_order\<close> holds of the two policies whose \<^verbatim>\<open>evict\<close> takes the
  end of one list (LRU, FIFO).
\<close>

definition in_no_list :: "'k \<Rightarrow> ('k, 'v) LFUPolicy \<Rightarrow> bool" where
  "in_no_list k p = (\<forall>f l. frequencyMap p f = Some l \<longrightarrow> k \<notin> set l)"

definition lfu_ok :: "('k, 'v) LFUPolicy \<Rightarrow> bool" where
  "lfu_ok p =
     (\<forall>f l. frequencyMap p f = Some l \<longrightarrow>
        distinct l \<and> (\<forall>k \<in> set l. \<exists>v. map_of (lfu_cache p) k = Some (v, f)))"

definition policy_ok :: "('k, 'v) EvictionPolicy \<Rightarrow> bool" where
  "policy_ok pol =
     (case pol of
        PolicyLRU p \<Rightarrow> distinct (map fst (lru_nodes p))
      | PolicyLFU p \<Rightarrow> distinct (map fst (lfu_cache p)) \<and> lfu_ok p
      | PolicyFIFO p \<Rightarrow> distinct (map fst (fifo_nodes p)))"

definition policy_capacity :: "('k, 'v) EvictionPolicy \<Rightarrow> int" where
  "policy_capacity pol =
     (case pol of
        PolicyLRU p \<Rightarrow> lru_capacity p
      | PolicyLFU p \<Rightarrow> lfu_capacity p
      | PolicyFIFO p \<Rightarrow> fifo_capacity p)"

definition evicts_by_order :: "('k, 'v) EvictionPolicy \<Rightarrow> bool" where
  "evicts_by_order pol = (case pol of PolicyLFU p \<Rightarrow> False | _ \<Rightarrow> True)"

subsection \<open>Invariants of the engine\<close>

text \<open>
  \<open>store_bytes\<close> is the sum of the \<^verbatim>\<open>size\<close> fields of the resident entries. \<open>engine_inv\<close>
  holds in an engine whose policy has a capacity other than 0 and whose keys are not
  empty: store and policy hold the same keys and \<^verbatim>\<open>currentMemoryBytes\<close> is \<open>store_bytes\<close>.
  \<open>bounded\<close> adds, for a policy that evicts by list order (LRU, FIFO), that the memory in
  use is within the threshold unless at most one entry is resident.
\<close>

definition store_bytes :: "(string \<times> 'n CacheEntry) list \<Rightarrow> int" where
  "store_bytes al = sum_list (map (\<lambda>ke. int (entry_size (snd ke))) al)"

definition engine_inv :: "'n CacheEngine \<Rightarrow> bool" where
  "engine_inv s =
     (policy_ok (evictionPolicy s) \<and>
      policy_capacity (evictionPolicy s) \<noteq> 0 \<and>
      distinct (map fst (store s)) \<and>
      set (policy_keys (evictionPolicy s)) = fst ` set (store s) \<and>
      [] \<notin> fst ` set (store s) \<and>
      currentMemoryBytes s = store_bytes (store s))"

definition bounded :: "'n CacheEngine \<Rightarrow> bool" where
  "bounded s =
     (evicts_by_order (evictionPolicy s) \<and>
      0 \<le> memoryThreshold s \<and> memoryThreshold s \<le> maxMemoryBytes s \<and>
      (currentMemoryBytes s \<le> memoryThreshold s \<or> length (store s) \<le> 1))"

definition shrinks :: "'n CacheEngine \<Rightarrow> 'n CacheEngine \<Rightarrow> bool" where
  "shrinks s s' =
     (memoryThreshold s' = memoryThreshold s \<and>
      maxMemoryBytes s' = maxMemoryBytes s \<and>
      evicts_by_order (evictionPolicy s') = evicts_by_order (evictionPolicy s) \<and>
      currentMemoryBytes s' \<le> currentMemoryBytes s \<and>
      length (store s') \<le> length (store s))"

definition new_entry :: "string \<Rightarrow> 'n json \<Rightarrow> nat option \<Rightarrow> nat \<Rightarrow> 'n CacheEntry" where
  "new_entry key v ttl now =
     \<lparr>entry_value = v,
      expiresAt = (case ttl of None \<Rightarrow> None | Some t \<Rightarrow> if t \<noteq> 0 then Some (now + t) else None),
      entry_size = calculateEntrySize key v\<rparr>"

definition made_room :: "string \<Rightarrow> 'n json \<Rightarrow> 'n CacheEngine \<Rightarrow> 'n CacheEngine" where
  "made_room key v s =
     (if currentMemoryBytes s + int (calculateEntrySize key v) > memoryThreshold s
      then enforceMemoryLimit (calculateEntrySize key v) s else s)"

text \<open>
  \<open>nonempty_keys\<close>: the keys an operation stores are not the empty string (the API accepts
  keys of 1 to 256 bytes).
\<close>

fun nonempty_keys :: "'n operation \<Rightarrow> bool" where
  "nonempty_keys (Set key v ttl now) = (key \<noteq> [])"
| "nonempty_keys (Increment key amount now) = (key \<noteq> [])"
| "nonempty_keys (SetMultiple entries) = list_all (\<lambda>e. fst (fst e) \<noteq> []) entries"
| "nonempty_keys other = True"

definition small_config :: CacheConfig where
  "small_config = \<lparr>maxMemoryMB = 1, maxKeys = 10, evictionPolicyName = LRU\<rparr>"

definition big_value :: "int json" where
  "big_value = JArray (replicate 131072 (JNum 0))"

definition half_value :: "int json" where
  "half_value = JArray (replicate 65536 (JNum 0))"

definition evicting_ops :: "int operation list" where
  "evicting_ops = [Set ''a'' half_value None 0, Set ''b'' half_value None 1]"

subsection \<open>States of the examples\<close>

definition expiring_state :: "int CacheEngine" where
  "expiring_state = run small_config [Set ''k'' (JStr ''v'') (Some 1000) 0]"

definition null_state :: "int CacheEngine" where
  "null_state = run small_config [Set ''n'' JNull None 0]"

definition counter_state :: "int CacheEngine" where
  "counter_state = run small_config [Set ''counter'' (JNum 5) None 0]"

definition half_state :: "int CacheEngine" where
  "half_state = run small_config [Set ''a'' half_value None 0]"

definition text_state :: "int CacheEngine" where
  "text_state = run small_config [Set ''text'' (JStr ''hello'') None 0, Set ''n'' JNull None 0]"

section \<open>LRU: the victim is the least recently used key\<close>

lemma last_access_snoc:
  "last_access (ops @ [op]) k = (if touches k op then Suc (length ops) else last_access ops k)"
  by (simp add: last_access_def)

lemma last_access_le: "last_access ops k \<le> length ops"
  unfolding last_access_def
  by (metis length_dropWhile_le length_rev)

lemma sorted_wrt_delete:
  "sorted_wrt P (map fst al) \<Longrightarrow> sorted_wrt P (map fst (AList.delete k al))"
  by (induction al) (auto simp: AList.delete_eq)

lemma lru_run_snoc: "lru_run c (ops @ [op]) = lru_step (lru_run c ops) op"
  by (simp add: lru_run_def)

lemma sorted_wrt_la_cong:
  assumes "sorted_wrt (\<lambda>a b. last_access ops b < last_access ops a) ks"
    and "\<forall>k \<in> set ks. \<not> touches k op"
  shows "sorted_wrt (\<lambda>a b. last_access (ops @ [op]) b < last_access (ops @ [op]) a) ks"
  using assms by (induction ks) (auto simp: last_access_snoc)

lemma keys_delete_notin: "k \<notin> set (map fst (AList.delete k al))"
  by (induction al) (auto simp: AList.delete_eq)

lemma keys_delete_subset: "set (map fst (AList.delete k al)) \<subseteq> set (map fst al)"
  by (induction al) (auto simp: AList.delete_eq)

lemma sorted_wrt_la_touch:
  assumes "sorted_wrt (\<lambda>a b. last_access ops b < last_access ops a) ks"
    and "k \<notin> set ks" and "touches k op" and "\<forall>k' \<in> set ks. \<not> touches k' op"
  shows "sorted_wrt (\<lambda>a b. last_access (ops @ [op]) b < last_access (ops @ [op]) a) (k # ks)"
proof -
  have "\<forall>k' \<in> set ks. last_access (ops @ [op]) k' < last_access (ops @ [op]) k"
    using assms(3,4) last_access_le [of ops] by (auto simp: last_access_snoc less_Suc_eq_le)
  then show ?thesis using sorted_wrt_la_cong [OF assms(1,4)] by simp
qed

lemma lru_moveToHead_ordered:
  assumes "lru_ordered ops p" and "touches k op" and "\<forall>k'. k' \<noteq> k \<longrightarrow> \<not> touches k' op"
  shows "lru_ordered (ops @ [op]) (lru_moveToHead (k, v) p)"
proof -
  let ?ks = "map fst (AList.delete k (lru_nodes p))"
  have 1: "sorted_wrt (\<lambda>a b. last_access ops b < last_access ops a) ?ks"
    using assms(1) by (simp add: lru_ordered_def sorted_wrt_delete)
  have 2: "k \<notin> set ?ks" by (rule keys_delete_notin)
  then have 3: "\<forall>k' \<in> set ?ks. \<not> touches k' op" using assms(3) by metis
  show ?thesis
    using sorted_wrt_la_touch [OF 1 2 assms(2) 3]
    by (simp add: lru_ordered_def lru_moveToHead_def lru_addToHead_def lru_removeNode_def)
qed

lemma lru_untouched_ordered:
  assumes "lru_ordered ops p" and "\<forall>k' \<in> set (map fst (lru_nodes p)). \<not> touches k' op"
  shows "lru_ordered (ops @ [op]) p"
  using assms by (simp add: lru_ordered_def sorted_wrt_la_cong)

lemma lru_removeNode_ordered:
  "lru_ordered ops p \<Longrightarrow> lru_ordered ops (lru_removeNode k p)"
  by (simp add: lru_ordered_def lru_removeNode_def sorted_wrt_delete)

lemma evictLRU_ordered: "lru_ordered ops p \<Longrightarrow> lru_ordered ops (snd (evictLRU p))"
  by (simp add: evictLRU_def Let_def lru_removeNode_ordered)

lemma evictLRU_keys: "set (map fst (lru_nodes (snd (evictLRU p)))) \<subseteq> set (map fst (lru_nodes p))"
  using keys_delete_subset [of _ "lru_nodes p"]
  by (simp add: evictLRU_def Let_def lru_removeNode_def)

lemma lru_ordered_step:
  assumes "lru_ordered ops p"
  shows "lru_ordered (ops @ [op]) (lru_step p op)"
proof (cases op)
  case (PGet k)
  show ?thesis
  proof (cases "map_of (lru_nodes p) k")
    case None
    then have "k \<notin> fst ` set (lru_nodes p)" by (simp add: map_of_eq_None_iff)
    then have "\<forall>k' \<in> set (map fst (lru_nodes p)). \<not> touches k' op" using PGet by auto
    with assms show ?thesis using None PGet
      by (simp add: lru_get_def lru_untouched_ordered)
  next
    case (Some v)
    then show ?thesis using PGet assms
      by (simp add: lru_get_def lru_moveToHead_ordered)
  qed
next
  case (PSet k v)
  show ?thesis
  proof (cases "map_of (lru_nodes p) k")
    case (Some old)
    then show ?thesis using PSet assms
      by (simp add: lru_set_def lru_moveToHead_ordered)
  next
    case None
    then have nin: "k \<notin> set (map fst (lru_nodes p))" by (simp add: map_of_eq_None_iff)
    show ?thesis
    proof (cases "lru_capacity p = 0")
      case True
      have "\<forall>k' \<in> set (map fst (lru_nodes p)). \<not> touches k' op" using PSet nin by auto
      then show ?thesis using None PSet True assms
        by (simp add: lru_set_def lru_untouched_ordered)
    next
      case False
      define q where "q = (if lru_capacity p > 0 \<and> int (length (lru_nodes p)) \<ge> lru_capacity p
                 then evictLRU p else (None, p))"
      have q1: "lru_ordered ops (snd q)"
        using assms by (simp add: q_def evictLRU_ordered)
      have q2: "k \<notin> set (map fst (lru_nodes (snd q)))"
        using nin evictLRU_keys [of p] by (auto simp: q_def)
      then have q3: "\<forall>k' \<in> set (map fst (lru_nodes (snd q))). \<not> touches k' op"
        using PSet by auto
      have "lru_step p op = lru_addToHead (k, v) (snd q)"
        using None PSet False by (simp add: lru_set_def q_def split_beta)
      moreover have "lru_ordered (ops @ [op]) (lru_addToHead (k, v) (snd q))"
        using sorted_wrt_la_touch [OF q1 [unfolded lru_ordered_def] q2 _ q3] PSet
        by (simp add: lru_ordered_def lru_addToHead_def)
      ultimately show ?thesis by simp
    qed
  qed
next
  case (PDelete k)
  have "\<forall>k' \<in> set (map fst (lru_nodes (lru_removeNode k p))). \<not> touches k' op"
    "\<forall>k' \<in> set (map fst (lru_nodes p)). \<not> touches k' op"
    using PDelete by auto
  then show ?thesis using PDelete assms
    by (auto simp: lru_delete_def lru_untouched_ordered lru_removeNode_ordered split: option.splits)
next
  case PEvict
  have "\<forall>k' \<in> set (map fst (lru_nodes (snd (evictLRU p)))). \<not> touches k' op"
    using PEvict by auto
  then show ?thesis using PEvict assms
    by (simp add: lru_untouched_ordered evictLRU_ordered)
qed

lemma lru_run_ordered: "lru_ordered ops (lru_run c ops)"
proof (induction ops rule: rev_induct)
  case Nil
  show ?case by (simp add: lru_run_def lru_ordered_def new_LRUPolicy_def)
next
  case (snoc op ops)
  then show ?case by (simp add: lru_run_snoc lru_ordered_step)
qed

lemma sorted_wrt_last:
  "sorted_wrt P xs \<Longrightarrow> xs \<noteq> [] \<Longrightarrow> x \<in> set xs \<Longrightarrow> x \<noteq> last xs \<Longrightarrow> P x (last xs)"
  by (induction xs) (auto split: if_splits)

text \<open>
  C8. After any history of get, set, delete and evict calls on an LRU policy of any
  capacity, if a key is resident then \<^verbatim>\<open>evict()\<close> returns a resident key whose last access
  is strictly earlier than the last access of every other resident key.
\<close>

theorem lru_evicts_least_recently_used:
  assumes "p = lru_run capacity ops" and "lru_nodes p \<noteq> []"
  shows "\<exists>k. fst (evictLRU p) = Some k \<and> k \<in> set (map fst (lru_nodes p)) \<and>
           (\<forall>k' \<in> set (map fst (lru_nodes p)). k' \<noteq> k \<longrightarrow> last_access ops k < last_access ops k')"
proof -
  let ?ks = "map fst (lru_nodes p)"
  have s: "sorted_wrt (\<lambda>a b. last_access ops b < last_access ops a) ?ks"
    using lru_run_ordered [of ops capacity] assms(1) by (simp add: lru_ordered_def)
  have ne: "?ks \<noteq> []" using assms(2) by simp
  have l: "fst (last (lru_nodes p)) = last ?ks" using assms(2) by (simp add: last_map)
  have "fst (evictLRU p) = Some (last ?ks)" using assms(2) l by (simp add: evictLRU_def Let_def)
  moreover have "last ?ks \<in> set ?ks" using ne by (rule last_in_set)
  moreover have "\<forall>k' \<in> set ?ks. k' \<noteq> last ?ks \<longrightarrow> last_access ops (last ?ks) < last_access ops k'"
    using sorted_wrt_last [OF s ne] by blast
  ultimately show ?thesis by blast
qed

lemma lru_history_nodes:
  "lru_nodes (lru_run 3 lru_history) = [(''d'', 4), (''a'', 1), (''c'', 3)]"
  by (simp add: lru_history_def lru_run_def new_LRUPolicy_def lru_set_def lru_get_def
      evictLRU_def lru_moveToHead_def lru_addToHead_def lru_removeNode_def)

theorem lru_evicts_least_recently_used_witness:
  "lru_nodes (lru_run 3 lru_history) \<noteq> [] \<and>
   fst (evictLRU (lru_run 3 lru_history)) = Some ''c'' \<and>
   last_access lru_history ''c'' < last_access lru_history ''a'' \<and>
   last_access lru_history ''c'' < last_access lru_history ''d''"
proof -
  have ne: "lru_nodes (lru_run 3 lru_history) \<noteq> []" by (simp add: lru_history_nodes)
  obtain k where k: "fst (evictLRU (lru_run 3 lru_history)) = Some k"
    and least: "\<forall>k' \<in> set (map fst (lru_nodes (lru_run 3 lru_history))).
                  k' \<noteq> k \<longrightarrow> last_access lru_history k < last_access lru_history k'"
    using lru_evicts_least_recently_used [OF refl ne] by blast
  have "fst (evictLRU (lru_run 3 lru_history)) = Some ''c''"
    by (simp add: evictLRU_def Let_def lru_history_nodes)
  with k have "k = ''c''" by simp
  with least ne k show ?thesis by (simp add: lru_history_nodes)
qed

section \<open>LFU: \<^verbatim>\<open>minFrequency\<close> after a removal\<close>

lemmas lfu_defs = lfu_run_def new_LFUPolicy_def lfu_set_def lfu_get_def lfu_delete_def
  evictLFU_def increaseFrequency_def addToFrequencyList_def removeFromFrequencyList_def Let_def

text \<open>
  C3 (the code at the failing input). \<^verbatim>\<open>delete\<close> answers an emptied minimum list with
  \<^verbatim>\<open>minFrequency++\<close>: after the history \<^verbatim>\<open>minFrequency\<close> is 2, no list exists at 2 and the only
  non-empty list is at 3.
\<close>

theorem lfu_minFrequency_after_delete:
  "minFrequency (lfu_run 3 lfu_history) = 2 \<and>
   frequencyMap (lfu_run 3 lfu_history) 2 = None \<and>
   frequencyMap (lfu_run 3 lfu_history) 3 = Some [''b''] \<and>
   map fst (lfu_cache (lfu_run 3 lfu_history)) = [''b'']"
  by (simp add: lfu_history_def lfu_defs)

text \<open>
  C4 (the code at the failing input). After the same history key \<open>b\<close> is resident and
  \<^verbatim>\<open>evict()\<close> returns no victim, because it looks for the list at the stale \<^verbatim>\<open>minFrequency\<close>.
\<close>

theorem lfu_evict_after_delete:
  "map fst (lfu_cache (lfu_run 3 lfu_history)) = [''b''] \<and>
   fst (evictLFU (lfu_run 3 lfu_history)) = None"
  by (simp add: lfu_history_def lfu_defs)

section \<open>The engine with \<^verbatim>\<open>maxKeys = 0\<close>\<close>

lemmas engine_defs = run_def new_CacheEngine_def createEvictionPolicy_def
  new_StatisticsTracker_def engine_set_def engine_get_def engine_delete_def policy_set_def
  policy_get_def policy_delete_def policy_evict_def policy_keys_def new_LRUPolicy_def
  lru_set_def lru_get_def lru_delete_def evictLRU_def lru_moveToHead_def lru_addToHead_def
  lru_removeNode_def calculateEntrySize_def isExpired_def recordHit_def recordMiss_def
  recordOperation_def recordEviction_def recordExpiration_def Let_def

text \<open>
  C5 (the code at the failing input). With \<^verbatim>\<open>maxKeys = 0\<close> the engine's \<^verbatim>\<open>set\<close> stores the
  entry in the primary map and accounts its 73 bytes, and a later \<^verbatim>\<open>get\<close> returns the value.
\<close>

theorem maxKeys_zero_set_stores:
  "store (run disabled_config [Set ''a'' (JNum (1::int)) None 0])
     = [(''a'', \<lparr>entry_value = JNum 1, expiresAt = None, entry_size = 73\<rparr>)] \<and>
   currentMemoryBytes (run disabled_config [Set ''a'' (JNum (1::int)) None 0]) = 73 \<and>
   fst (engine_get ''a'' 1 (run disabled_config [Set ''a'' (JNum (1::int)) None 0])) = JNum 1"
  by (simp add: disabled_config_def engine_defs)

text \<open>
  C2 (the code at the failing input). In the same state the primary map holds key \<open>a\<close>
  and the policy holds no key.
\<close>

theorem maxKeys_zero_key_sets_differ:
  "engine_keys (run disabled_config [Set ''a'' (JNum (1::int)) None 0]) = [''a''] \<and>
   policy_keys (evictionPolicy (run disabled_config [Set ''a'' (JNum (1::int)) None 0])) = [] \<and>
   policy_size (evictionPolicy (run disabled_config [Set ''a'' (JNum (1::int)) None 0])) = 0"
  by (simp add: disabled_config_def engine_defs engine_keys_def policy_size_def lru_size_def)

section \<open>Batch set\<close>

lemma setMultiple_foldl:
  "setMultiple entries s = (True, foldl perform s (individual_sets entries))"
  by (induction entries s rule: setMultiple.induct) (simp_all add: individual_sets_def)

text \<open>
  C9. \<^verbatim>\<open>setMultiple\<close> on a list of entries (of any length) returns \<^verbatim>\<open>true\<close> and leaves the
  engine in the state that the individual \<^verbatim>\<open>set\<close> calls, in the same order, leave it in:
  the same store, memory accounting, policy state and statistics.
\<close>

theorem setMultiple_is_individual_sets:
  "perform s (SetMultiple entries) = foldl perform s (individual_sets entries) \<and>
   fst (setMultiple entries s) = True"
  by (simp add: setMultiple_foldl)

section \<open>What the policies keep true\<close>

text \<open>
  In an LFU policy every key on the list of a frequency is a key of \<open>lfu_cache\<close> with that
  frequency, and no list holds a key twice (\<open>lfu_ok\<close>); the keys of every policy are distinct.
  Every operation keeps this, and a victim is always a key the policy held.
\<close>

lemma keys_delete: "fst ` set (AList.delete k al) = fst ` set al - {k}"
  by (induction al) (auto simp: AList.delete_eq)

lemma keys_update: "fst ` set (AList.update k v al) = insert k (fst ` set al)"
  using AList.dom_update [of k v al] by simp

lemma map_of_None_keys: "(map_of al k = None) = (k \<notin> fst ` set al)"
  by (simp add: map_of_eq_None_iff)

lemma map_of_Some_keys: "map_of al k = Some v \<Longrightarrow> k \<in> fst ` set al"
  using map_of_None_keys [of al k] by simp

lemma removeFrom_fields [simp]:
  "lfu_cache (removeFromFrequencyList k f p) = lfu_cache p"
  "minFrequency (removeFromFrequencyList k f p) = minFrequency p"
  "lfu_capacity (removeFromFrequencyList k f p) = lfu_capacity p"
  by (simp_all add: removeFromFrequencyList_def Let_def split: option.splits)

lemma addTo_fields [simp]:
  "lfu_cache (addToFrequencyList k f p) = lfu_cache p"
  "minFrequency (addToFrequencyList k f p) = minFrequency p"
  "lfu_capacity (addToFrequencyList k f p) = lfu_capacity p"
  by (simp_all add: addToFrequencyList_def Let_def)

lemma removeFrom_ok: "lfu_ok p \<Longrightarrow> lfu_ok (removeFromFrequencyList k f p)"
  unfolding lfu_ok_def removeFromFrequencyList_def Let_def
  by (auto split: option.splits if_splits dest: notin_set_remove1)

lemma removeFrom_no_list:
  assumes "lfu_ok p" and "map_of (lfu_cache p) k = Some (v, f)"
  shows "in_no_list k (removeFromFrequencyList k f p)"
  using assms unfolding lfu_ok_def in_no_list_def removeFromFrequencyList_def Let_def
  by (fastforce split: option.splits if_splits)

lemma absent_no_list:
  assumes "lfu_ok p" and "map_of (lfu_cache p) k = None"
  shows "in_no_list k p"
  using assms unfolding lfu_ok_def in_no_list_def by fastforce

lemma cache_update_ok:
  assumes "lfu_ok p" and "in_no_list k p"
  shows "lfu_ok (p\<lparr>lfu_cache := AList.update k x (lfu_cache p)\<rparr>)"
    and "in_no_list k (p\<lparr>lfu_cache := AList.update k x (lfu_cache p)\<rparr>)"
  using assms unfolding lfu_ok_def in_no_list_def
  by (auto simp: AList.update_conv')

lemma cache_delete_ok:
  assumes "lfu_ok p" and "in_no_list k p"
  shows "lfu_ok (p\<lparr>lfu_cache := AList.delete k (lfu_cache p)\<rparr>)"
  using assms unfolding lfu_ok_def in_no_list_def
  by (auto simp: AList.delete_conv')

lemma addTo_ok:
  assumes "lfu_ok p" and "in_no_list k p" and "map_of (lfu_cache p) k = Some (v, f)"
  shows "lfu_ok (addToFrequencyList k f p)"
  using assms unfolding lfu_ok_def in_no_list_def addToFrequencyList_def Let_def
  by (auto split: option.splits)

lemma minFrequency_update_ok [simp]: "lfu_ok (p\<lparr>minFrequency := m\<rparr>) = lfu_ok p"
  by (simp add: lfu_ok_def)

lemma if_minFrequency:
  "lfu_ok (if c then q\<lparr>minFrequency := m\<rparr> else q) = lfu_ok q"
  "lfu_cache (if c then q\<lparr>minFrequency := m\<rparr> else q) = lfu_cache q"
  "lfu_capacity (if c then q\<lparr>minFrequency := m\<rparr> else q) = lfu_capacity q"
  by simp_all

lemma increaseFrequency_ok:
  assumes "lfu_ok p" and "map_of (lfu_cache p) k = Some (old, f)"
  shows "lfu_ok (increaseFrequency k v f p)"
proof -
  let ?p1 = "removeFromFrequencyList k f p"
  let ?p2 = "?p1\<lparr>lfu_cache := AList.update k (v, f + 1) (lfu_cache ?p1)\<rparr>"
  have 1: "lfu_ok ?p1" "in_no_list k ?p1"
    using assms by (simp_all add: removeFrom_ok removeFrom_no_list)
  have 2: "lfu_ok ?p2" "in_no_list k ?p2" using cache_update_ok [OF 1] by simp_all
  have "map_of (lfu_cache ?p2) k = Some (v, f + 1)" by (simp add: AList.update_conv')
  then have "lfu_ok (addToFrequencyList k (f + 1) ?p2)" using addTo_ok [OF 2] by simp
  then show ?thesis unfolding increaseFrequency_def Let_def if_minFrequency .
qed

lemma increaseFrequency_keys:
  "fst ` set (lfu_cache (increaseFrequency k v f p)) = insert k (fst ` set (lfu_cache p))"
  unfolding increaseFrequency_def Let_def if_minFrequency by (simp add: keys_update)

lemma increaseFrequency_capacity [simp]:
  "lfu_capacity (increaseFrequency k v f p) = lfu_capacity p"
  unfolding increaseFrequency_def Let_def if_minFrequency by simp

lemma evictLFU_ok: "lfu_ok p \<Longrightarrow> lfu_ok (snd (evictLFU p))"
proof -
  assume ok: "lfu_ok p"
  show ?thesis
  proof (cases "fst (evictLFU p)")
    case None
    then have "snd (evictLFU p) = p"
      by (auto simp: evictLFU_def Let_def split: if_splits option.splits list.splits)
    with ok show ?thesis by simp
  next
    case (Some e)
    then obtain rest where l: "minFrequency p \<noteq> 0" "frequencyMap p (minFrequency p) = Some (e # rest)"
      by (auto simp: evictLFU_def Let_def split: if_splits option.splits list.splits)
    then obtain v where c: "map_of (lfu_cache p) e = Some (v, minFrequency p)"
      using ok unfolding lfu_ok_def by fastforce
    let ?p1 = "removeFromFrequencyList e (minFrequency p) p"
    have 1: "lfu_ok ?p1" "in_no_list e ?p1"
      using ok c by (simp_all add: removeFrom_ok removeFrom_no_list)
    have "snd (evictLFU p) = ?p1\<lparr>lfu_cache := AList.delete e (lfu_cache ?p1)\<rparr>"
      using l c by (simp add: evictLFU_def Let_def)
    then show ?thesis using cache_delete_ok [OF 1] by simp
  qed
qed

lemma evictLFU_None: "fst (evictLFU p) = None \<Longrightarrow> snd (evictLFU p) = p"
  by (auto simp: evictLFU_def Let_def split: if_splits option.splits list.splits)

lemma evictLFU_Some:
  assumes "lfu_ok p" and "fst (evictLFU p) = Some e"
  shows "e \<in> fst ` set (lfu_cache p)"
    and "fst ` set (lfu_cache (snd (evictLFU p))) = fst ` set (lfu_cache p) - {e}"
proof -
  obtain rest where l: "minFrequency p \<noteq> 0" "frequencyMap p (minFrequency p) = Some (e # rest)"
    using assms(2) by (auto simp: evictLFU_def Let_def split: if_splits option.splits list.splits)
  then obtain v where c: "map_of (lfu_cache p) e = Some (v, minFrequency p)"
    using assms(1) unfolding lfu_ok_def by fastforce
  then show "e \<in> fst ` set (lfu_cache p)"
    by (rule map_of_Some_keys)
  show "fst ` set (lfu_cache (snd (evictLFU p))) = fst ` set (lfu_cache p) - {e}"
    using l c by (simp add: evictLFU_def Let_def keys_delete)
qed

lemma evictLFU_capacity [simp]: "lfu_capacity (snd (evictLFU p)) = lfu_capacity p"
  by (auto simp: evictLFU_def Let_def split: if_splits option.splits list.splits)

lemma lfu_get_ok: "lfu_ok p \<Longrightarrow> lfu_ok (snd (lfu_get k p))"
  by (auto simp: lfu_get_def increaseFrequency_ok split: option.splits)

lemma lfu_get_keys: "fst ` set (lfu_cache (snd (lfu_get k p))) = fst ` set (lfu_cache p)"
  by (auto simp: lfu_get_def increaseFrequency_keys split: option.splits dest: map_of_Some_keys)

lemma lfu_get_capacity [simp]: "lfu_capacity (snd (lfu_get k p)) = lfu_capacity p"
  by (auto simp: lfu_get_def split: option.splits)

lemma lfu_delete_ok: "lfu_ok p \<Longrightarrow> lfu_ok (snd (lfu_delete k p))"
proof (cases "map_of (lfu_cache p) k")
  case None
  assume "lfu_ok p"
  with None show ?thesis by (simp add: lfu_delete_def)
next
  case (Some node)
  assume ok: "lfu_ok p"
  obtain v f where node: "node = (v, f)" by (cases node)
  let ?p1 = "removeFromFrequencyList k f p"
  have 1: "lfu_ok ?p1" "in_no_list k ?p1"
    using ok Some node by (simp_all add: removeFrom_ok removeFrom_no_list)
  have "lfu_ok (?p1\<lparr>lfu_cache := AList.delete k (lfu_cache ?p1)\<rparr>)"
    by (rule cache_delete_ok [OF 1])
  then show ?thesis using Some node
    unfolding lfu_delete_def Let_def by (simp add: if_minFrequency)
qed

lemma lfu_delete_keys:
  "fst ` set (lfu_cache (snd (lfu_delete k p))) = fst ` set (lfu_cache p) - {k}"
proof (cases "map_of (lfu_cache p) k")
  case None
  then show ?thesis using map_of_None_keys [of "lfu_cache p" k] by (simp add: lfu_delete_def)
next
  case (Some node)
  then show ?thesis unfolding lfu_delete_def Let_def
    by (cases node) (simp add: if_minFrequency keys_delete)
qed

lemma lfu_delete_capacity [simp]: "lfu_capacity (snd (lfu_delete k p)) = lfu_capacity p"
  unfolding lfu_delete_def Let_def by (auto simp: if_minFrequency split: option.splits)

lemma lfu_set_facts:
  assumes "lfu_ok p"
  shows "lfu_ok (snd (lfu_set k v p))"
    and "fst (lfu_set k v p) = Some e \<Longrightarrow> e \<in> fst ` set (lfu_cache p) \<and> k \<notin> fst ` set (lfu_cache p)"
    and "fst ` set (lfu_cache (snd (lfu_set k v p))) =
           (if k \<in> fst ` set (lfu_cache p) \<or> lfu_capacity p = 0 then fst ` set (lfu_cache p)
            else insert k (fst ` set (lfu_cache p) - set_option (fst (lfu_set k v p))))"
    and "lfu_capacity (snd (lfu_set k v p)) = lfu_capacity p"
proof -
  define q where "q = (if lfu_capacity p > 0 \<and> int (length (lfu_cache p)) \<ge> lfu_capacity p
                       then evictLFU p else (None, p))"
  have q_ok: "lfu_ok (snd q)" using assms by (simp add: q_def evictLFU_ok)
  have q_cap: "lfu_capacity (snd q) = lfu_capacity p" by (simp add: q_def)
  have q_keys: "fst ` set (lfu_cache (snd q)) = fst ` set (lfu_cache p) - set_option (fst q)"
    using evictLFU_Some(2) [OF assms] evictLFU_None [of p]
    by (cases "fst (evictLFU p)") (auto simp: q_def)
  have q_in: "fst q = Some e \<Longrightarrow> e \<in> fst ` set (lfu_cache p)" for e
    using evictLFU_Some(1) [OF assms] by (auto simp: q_def split: if_splits)
  have q_zero: "lfu_capacity p = 0 \<Longrightarrow> q = (None, p)" by (simp add: q_def)
  show "lfu_capacity (snd (lfu_set k v p)) = lfu_capacity p"
    unfolding lfu_set_def Let_def q_def [symmetric]
    by (auto simp: split_beta q_cap if_minFrequency split: option.splits)
  show "fst (lfu_set k v p) = Some e \<Longrightarrow> e \<in> fst ` set (lfu_cache p) \<and> k \<notin> fst ` set (lfu_cache p)"
    unfolding lfu_set_def Let_def q_def [symmetric]
    by (auto simp: split_beta q_in map_of_None_keys [symmetric] split: option.splits if_splits)
  show "fst ` set (lfu_cache (snd (lfu_set k v p))) =
           (if k \<in> fst ` set (lfu_cache p) \<or> lfu_capacity p = 0 then fst ` set (lfu_cache p)
            else insert k (fst ` set (lfu_cache p) - set_option (fst (lfu_set k v p))))"
  proof (cases "map_of (lfu_cache p) k")
    case (Some node)
    then show ?thesis using map_of_Some_keys [OF Some]
      by (cases node) (auto simp: lfu_set_def increaseFrequency_keys)
  next
    case None
    then have "k \<notin> fst ` set (lfu_cache p)" by (simp add: map_of_None_keys)
    then show ?thesis using None q_zero
      unfolding lfu_set_def Let_def q_def [symmetric]
      by (auto simp: split_beta if_minFrequency keys_update q_keys)
  qed
  show "lfu_ok (snd (lfu_set k v p))"
  proof (cases "map_of (lfu_cache p) k")
    case (Some node)
    then show ?thesis using assms
      by (cases node) (simp add: lfu_set_def increaseFrequency_ok)
  next
    case None
    then have "k \<notin> fst ` set (lfu_cache (snd q))"
      using q_keys by (simp add: map_of_None_keys)
    then have nl: "in_no_list k (snd q)"
      using absent_no_list [OF q_ok] by (simp add: map_of_None_keys)
    let ?p2 = "(snd q)\<lparr>lfu_cache := AList.update k (v, 1) (lfu_cache (snd q))\<rparr>"
    have 2: "lfu_ok ?p2" "in_no_list k ?p2" using cache_update_ok [OF q_ok nl] by simp_all
    have "map_of (lfu_cache ?p2) k = Some (v, 1)" by (simp add: AList.update_conv')
    then have "lfu_ok (addToFrequencyList k 1 ?p2)" using addTo_ok [OF 2] by simp
    then show ?thesis using None q_ok
      unfolding lfu_set_def Let_def q_def [symmetric]
      by (simp add: split_beta if_minFrequency)
  qed
qed

subsection \<open>LRU and FIFO\<close>

lemma evictLRU_facts:
  "fst (evictLRU p) = None \<Longrightarrow> snd (evictLRU p) = p"
  "fst (evictLRU p) = Some e \<Longrightarrow> e \<in> fst ` set (lru_nodes p)"
  "fst ` set (lru_nodes (snd (evictLRU p))) = fst ` set (lru_nodes p) - set_option (fst (evictLRU p))"
  "lru_capacity (snd (evictLRU p)) = lru_capacity p"
  "lru_nodes p \<noteq> [] \<Longrightarrow> fst (evictLRU p) \<noteq> None"
  by (auto simp: evictLRU_def Let_def lru_removeNode_def keys_delete split: if_splits)

lemma lru_get_facts:
  "fst ` set (lru_nodes (snd (lru_get k p))) = fst ` set (lru_nodes p)"
  "lru_capacity (snd (lru_get k p)) = lru_capacity p"
  by (auto simp: lru_get_def lru_moveToHead_def lru_addToHead_def lru_removeNode_def keys_delete
           split: option.splits dest: map_of_Some_keys)

lemma lru_delete_facts:
  "fst ` set (lru_nodes (snd (lru_delete k p))) = fst ` set (lru_nodes p) - {k}"
  "lru_capacity (snd (lru_delete k p)) = lru_capacity p"
  by (auto simp: lru_delete_def lru_removeNode_def keys_delete map_of_None_keys
           split: option.splits)

lemma lru_set_facts:
  "fst (lru_set k v p) = Some e \<Longrightarrow> e \<in> fst ` set (lru_nodes p) \<and> k \<notin> fst ` set (lru_nodes p)"
  "fst ` set (lru_nodes (snd (lru_set k v p))) =
           (if k \<in> fst ` set (lru_nodes p) \<or> lru_capacity p = 0 then fst ` set (lru_nodes p)
            else insert k (fst ` set (lru_nodes p) - set_option (fst (lru_set k v p))))"
  "lru_capacity (snd (lru_set k v p)) = lru_capacity p"
proof -
  define q where "q = (if lru_capacity p > 0 \<and> int (length (lru_nodes p)) \<ge> lru_capacity p
                       then evictLRU p else (None, p))"
  have q_cap: "lru_capacity (snd q) = lru_capacity p" by (simp add: q_def evictLRU_facts)
  have q_keys: "fst ` set (lru_nodes (snd q)) = fst ` set (lru_nodes p) - set_option (fst q)"
    by (simp add: q_def evictLRU_facts)
  have q_in: "fst q = Some e \<Longrightarrow> e \<in> fst ` set (lru_nodes p)" for e
    using evictLRU_facts(2) [of p e] by (auto simp: q_def split: if_splits)
  have q_zero: "lru_capacity p = 0 \<Longrightarrow> q = (None, p)" by (simp add: q_def)
  show "lru_capacity (snd (lru_set k v p)) = lru_capacity p"
    unfolding lru_set_def Let_def q_def [symmetric]
    by (auto simp: split_beta q_cap lru_moveToHead_def lru_addToHead_def lru_removeNode_def
             split: option.splits)
  show "fst (lru_set k v p) = Some e \<Longrightarrow> e \<in> fst ` set (lru_nodes p) \<and> k \<notin> fst ` set (lru_nodes p)"
    unfolding lru_set_def Let_def q_def [symmetric]
    by (auto simp: split_beta q_in map_of_None_keys [symmetric] split: option.splits if_splits)
  show "fst ` set (lru_nodes (snd (lru_set k v p))) =
           (if k \<in> fst ` set (lru_nodes p) \<or> lru_capacity p = 0 then fst ` set (lru_nodes p)
            else insert k (fst ` set (lru_nodes p) - set_option (fst (lru_set k v p))))"
  proof (cases "map_of (lru_nodes p) k")
    case (Some node)
    then show ?thesis using map_of_Some_keys [OF Some]
      by (auto simp: lru_set_def lru_moveToHead_def lru_addToHead_def lru_removeNode_def keys_delete)
  next
    case None
    then have "k \<notin> fst ` set (lru_nodes p)" by (simp add: map_of_None_keys)
    then show ?thesis using None q_zero
      unfolding lru_set_def Let_def q_def [symmetric]
      by (auto simp: split_beta lru_addToHead_def q_keys)
  qed
qed

lemma evictFIFO_facts:
  "fst (evictFIFO p) = None \<Longrightarrow> snd (evictFIFO p) = p"
  "fst (evictFIFO p) = Some e \<Longrightarrow> e \<in> fst ` set (fifo_nodes p)"
  "fst ` set (fifo_nodes (snd (evictFIFO p))) = fst ` set (fifo_nodes p) - set_option (fst (evictFIFO p))"
  "fifo_capacity (snd (evictFIFO p)) = fifo_capacity p"
  "fifo_nodes p \<noteq> [] \<Longrightarrow> fst (evictFIFO p) \<noteq> None"
  by (auto simp: evictFIFO_def fifo_removeNode_def keys_delete split: list.splits)

lemma fifo_delete_facts:
  "fst ` set (fifo_nodes (snd (fifo_delete k p))) = fst ` set (fifo_nodes p) - {k}"
  "fifo_capacity (snd (fifo_delete k p)) = fifo_capacity p"
  by (auto simp: fifo_delete_def fifo_removeNode_def keys_delete map_of_None_keys
           split: option.splits)

lemma fifo_set_facts:
  "fst (fifo_set k v p) = Some e \<Longrightarrow> e \<in> fst ` set (fifo_nodes p) \<and> k \<notin> fst ` set (fifo_nodes p)"
  "fst ` set (fifo_nodes (snd (fifo_set k v p))) =
           (if k \<in> fst ` set (fifo_nodes p) \<or> fifo_capacity p = 0 then fst ` set (fifo_nodes p)
            else insert k (fst ` set (fifo_nodes p) - set_option (fst (fifo_set k v p))))"
  "fifo_capacity (snd (fifo_set k v p)) = fifo_capacity p"
proof -
  define q where "q = (if fifo_capacity p > 0 \<and> int (length (fifo_nodes p)) \<ge> fifo_capacity p
                       then evictFIFO p else (None, p))"
  have q_cap: "fifo_capacity (snd q) = fifo_capacity p" by (simp add: q_def evictFIFO_facts)
  have q_keys: "fst ` set (fifo_nodes (snd q)) = fst ` set (fifo_nodes p) - set_option (fst q)"
    by (simp add: q_def evictFIFO_facts)
  have q_in: "fst q = Some e \<Longrightarrow> e \<in> fst ` set (fifo_nodes p)" for e
    using evictFIFO_facts(2) [of p e] by (auto simp: q_def split: if_splits)
  have q_zero: "fifo_capacity p = 0 \<Longrightarrow> q = (None, p)" by (simp add: q_def)
  show "fifo_capacity (snd (fifo_set k v p)) = fifo_capacity p"
    unfolding fifo_set_def Let_def q_def [symmetric]
    by (auto simp: split_beta q_cap fifo_addToTail_def split: option.splits)
  show "fst (fifo_set k v p) = Some e \<Longrightarrow> e \<in> fst ` set (fifo_nodes p) \<and> k \<notin> fst ` set (fifo_nodes p)"
    unfolding fifo_set_def Let_def q_def [symmetric]
    by (auto simp: split_beta q_in map_of_None_keys [symmetric] split: option.splits if_splits)
  show "fst ` set (fifo_nodes (snd (fifo_set k v p))) =
           (if k \<in> fst ` set (fifo_nodes p) \<or> fifo_capacity p = 0 then fst ` set (fifo_nodes p)
            else insert k (fst ` set (fifo_nodes p) - set_option (fst (fifo_set k v p))))"
  proof (cases "map_of (fifo_nodes p) k")
    case (Some node)
    then show ?thesis using map_of_Some_keys [OF Some]
      by (auto simp: fifo_set_def keys_update)
  next
    case None
    then have "k \<notin> fst ` set (fifo_nodes p)" by (simp add: map_of_None_keys)
    then show ?thesis using None q_zero
      unfolding fifo_set_def Let_def q_def [symmetric]
      by (auto simp: split_beta fifo_addToTail_def q_keys)
  qed
qed

subsection \<open>Distinct keys\<close>

lemma lru_distinct:
  assumes "distinct (map fst (lru_nodes p))"
  shows "distinct (map fst (lru_nodes (snd (evictLRU p))))"
    and "distinct (map fst (lru_nodes (snd (lru_get k p))))"
    and "distinct (map fst (lru_nodes (snd (lru_delete k p))))"
    and "distinct (map fst (lru_nodes (snd (lru_set k v p))))"
proof -
  show e: "distinct (map fst (lru_nodes (snd (evictLRU p))))"
    using assms by (simp add: evictLRU_def Let_def lru_removeNode_def AList.distinct_delete)
  show "distinct (map fst (lru_nodes (snd (lru_get k p))))"
    using assms
    by (auto simp: lru_get_def lru_moveToHead_def lru_addToHead_def lru_removeNode_def
        AList.distinct_delete keys_delete split: option.splits)
  show "distinct (map fst (lru_nodes (snd (lru_delete k p))))"
    using assms by (auto simp: lru_delete_def lru_removeNode_def AList.distinct_delete split: option.splits)
  show "distinct (map fst (lru_nodes (snd (lru_set k v p))))"
  proof (cases "map_of (lru_nodes p) k")
    case (Some node)
    then show ?thesis using assms
      by (simp add: lru_set_def lru_moveToHead_def lru_addToHead_def lru_removeNode_def
          AList.distinct_delete keys_delete)
  next
    case None
    then have "k \<notin> fst ` set (lru_nodes p)" by (simp add: map_of_None_keys)
    then have "k \<notin> fst ` set (lru_nodes (snd (evictLRU p)))" by (simp add: evictLRU_facts)
    then show ?thesis using None assms e \<open>k \<notin> fst ` set (lru_nodes p)\<close>
      by (auto simp: lru_set_def Let_def split_beta lru_addToHead_def)
  qed
qed

lemma fifo_distinct:
  assumes "distinct (map fst (fifo_nodes p))"
  shows "distinct (map fst (fifo_nodes (snd (evictFIFO p))))"
    and "distinct (map fst (fifo_nodes (snd (fifo_delete k p))))"
    and "distinct (map fst (fifo_nodes (snd (fifo_set k v p))))"
proof -
  show e: "distinct (map fst (fifo_nodes (snd (evictFIFO p))))"
    using assms AList.distinct_delete [of "fifo_nodes p"]
    by (auto simp: evictFIFO_def fifo_removeNode_def split: list.splits)
  show "distinct (map fst (fifo_nodes (snd (fifo_delete k p))))"
    using assms by (auto simp: fifo_delete_def fifo_removeNode_def AList.distinct_delete split: option.splits)
  show "distinct (map fst (fifo_nodes (snd (fifo_set k v p))))"
  proof (cases "map_of (fifo_nodes p) k")
    case (Some node)
    then show ?thesis using assms by (simp add: fifo_set_def AList.distinct_update)
  next
    case None
    then have "k \<notin> fst ` set (fifo_nodes p)" by (simp add: map_of_None_keys)
    then have "k \<notin> fst ` set (fifo_nodes (snd (evictFIFO p)))" by (simp add: evictFIFO_facts)
    then show ?thesis using None assms e \<open>k \<notin> fst ` set (fifo_nodes p)\<close>
      by (auto simp: fifo_set_def Let_def split_beta fifo_addToTail_def)
  qed
qed

lemma lfu_distinct:
  assumes "distinct (map fst (lfu_cache p))"
  shows "distinct (map fst (lfu_cache (snd (evictLFU p))))"
    and "distinct (map fst (lfu_cache (snd (lfu_get k p))))"
    and "distinct (map fst (lfu_cache (snd (lfu_delete k p))))"
    and "distinct (map fst (lfu_cache (snd (lfu_set k v p))))"
proof -
  have inc: "distinct (map fst (lfu_cache (increaseFrequency k' v' f' p)))" for k' v' f'
    unfolding increaseFrequency_def Let_def if_minFrequency
    using assms by (simp add: AList.distinct_update)
  show e: "distinct (map fst (lfu_cache (snd (evictLFU p))))"
    using assms
    by (auto simp: evictLFU_def Let_def AList.distinct_delete split: option.splits list.splits)
  show "distinct (map fst (lfu_cache (snd (lfu_get k p))))"
    using assms inc by (auto simp: lfu_get_def split: option.splits)
  show "distinct (map fst (lfu_cache (snd (lfu_delete k p))))"
    unfolding lfu_delete_def Let_def
    using assms by (auto simp: if_minFrequency AList.distinct_delete split: option.splits)
  show "distinct (map fst (lfu_cache (snd (lfu_set k v p))))"
    unfolding lfu_set_def Let_def
    using assms inc e
    by (auto simp: split_beta if_minFrequency AList.distinct_update split: option.splits)
qed

subsection \<open>The policy of the engine\<close>

lemmas policy_defs = policy_ok_def policy_capacity_def evicts_by_order_def policy_keys_def
  policy_get_def policy_set_def policy_delete_def policy_evict_def policy_clear_def

lemma policy_get_facts:
  "policy_ok pol \<Longrightarrow> policy_ok (snd (policy_get k pol))"
  "set (policy_keys (snd (policy_get k pol))) = set (policy_keys pol)"
  "policy_capacity (snd (policy_get k pol)) = policy_capacity pol"
  "evicts_by_order (snd (policy_get k pol)) = evicts_by_order pol"
  by (cases pol; simp add: policy_defs split_beta lru_get_facts lfu_get_keys lfu_get_ok
        lru_distinct lfu_distinct fifo_get_def)+

lemma policy_delete_facts:
  "policy_ok pol \<Longrightarrow> policy_ok (snd (policy_delete k pol))"
  "set (policy_keys (snd (policy_delete k pol))) = set (policy_keys pol) - {k}"
  "policy_capacity (snd (policy_delete k pol)) = policy_capacity pol"
  "evicts_by_order (snd (policy_delete k pol)) = evicts_by_order pol"
  by (cases pol; simp add: policy_defs split_beta lru_delete_facts lfu_delete_keys lfu_delete_ok
        fifo_delete_facts lru_distinct lfu_distinct fifo_distinct)+

lemma policy_evict_facts:
  "policy_ok pol \<Longrightarrow> policy_ok (snd (policy_evict pol))"
  "fst (policy_evict pol) = None \<Longrightarrow> snd (policy_evict pol) = pol"
  "policy_ok pol \<Longrightarrow> fst (policy_evict pol) = Some e \<Longrightarrow> e \<in> set (policy_keys pol)"
  "policy_ok pol \<Longrightarrow>
     set (policy_keys (snd (policy_evict pol))) = set (policy_keys pol) - set_option (fst (policy_evict pol))"
  "policy_capacity (snd (policy_evict pol)) = policy_capacity pol"
  "evicts_by_order (snd (policy_evict pol)) = evicts_by_order pol"
  "evicts_by_order pol \<Longrightarrow> policy_keys pol \<noteq> [] \<Longrightarrow> fst (policy_evict pol) \<noteq> None"
proof -
  show "policy_ok pol \<Longrightarrow> policy_ok (snd (policy_evict pol))"
    by (cases pol; simp add: policy_defs split_beta lru_distinct lfu_distinct fifo_distinct evictLFU_ok)
  show "fst (policy_evict pol) = None \<Longrightarrow> snd (policy_evict pol) = pol"
    by (cases pol; simp add: policy_defs split_beta evictLRU_facts evictLFU_None evictFIFO_facts)
  show "policy_ok pol \<Longrightarrow> fst (policy_evict pol) = Some e \<Longrightarrow> e \<in> set (policy_keys pol)"
    by (cases pol; simp add: policy_defs split_beta evictLRU_facts evictLFU_Some evictFIFO_facts)
  show "policy_ok pol \<Longrightarrow>
     set (policy_keys (snd (policy_evict pol))) = set (policy_keys pol) - set_option (fst (policy_evict pol))"
  proof (cases pol)
    case (PolicyLFU p)
    assume "policy_ok pol"
    then have ok: "lfu_ok p" using PolicyLFU by (simp add: policy_defs)
    show ?thesis
      using evictLFU_Some(2) [OF ok] evictLFU_None [of p] PolicyLFU
      by (cases "fst (evictLFU p)") (auto simp: policy_defs split_beta)
  qed (simp_all add: policy_defs split_beta evictLRU_facts evictFIFO_facts)
  show "policy_capacity (snd (policy_evict pol)) = policy_capacity pol"
    by (cases pol; simp add: policy_defs split_beta evictLRU_facts evictFIFO_facts)
  show "evicts_by_order (snd (policy_evict pol)) = evicts_by_order pol"
    by (cases pol; simp add: policy_defs split_beta)
  show "evicts_by_order pol \<Longrightarrow> policy_keys pol \<noteq> [] \<Longrightarrow> fst (policy_evict pol) \<noteq> None"
    by (cases pol; simp add: policy_defs split_beta evictLRU_facts evictFIFO_facts)
qed

lemma policy_set_facts:
  "policy_ok pol \<Longrightarrow> policy_ok (snd (policy_set k v pol))"
  "policy_ok pol \<Longrightarrow> fst (policy_set k v pol) = Some e \<Longrightarrow>
     e \<in> set (policy_keys pol) \<and> k \<notin> set (policy_keys pol)"
  "policy_ok pol \<Longrightarrow>
     set (policy_keys (snd (policy_set k v pol))) =
       (if k \<in> set (policy_keys pol) \<or> policy_capacity pol = 0 then set (policy_keys pol)
        else insert k (set (policy_keys pol) - set_option (fst (policy_set k v pol))))"
  "policy_capacity (snd (policy_set k v pol)) = policy_capacity pol"
  "evicts_by_order (snd (policy_set k v pol)) = evicts_by_order pol"
proof -
  show "policy_ok pol \<Longrightarrow> policy_ok (snd (policy_set k v pol))"
    by (cases pol; simp add: policy_defs split_beta lru_distinct lfu_distinct fifo_distinct lfu_set_facts)
  show "policy_ok pol \<Longrightarrow> fst (policy_set k v pol) = Some e \<Longrightarrow>
     e \<in> set (policy_keys pol) \<and> k \<notin> set (policy_keys pol)"
    using lru_set_facts(1) [of k v _ e] lfu_set_facts(2) [of _ k v e] fifo_set_facts(1) [of k v _ e]
    by (cases pol; auto simp: policy_defs split_beta)
  show "policy_ok pol \<Longrightarrow>
     set (policy_keys (snd (policy_set k v pol))) =
       (if k \<in> set (policy_keys pol) \<or> policy_capacity pol = 0 then set (policy_keys pol)
        else insert k (set (policy_keys pol) - set_option (fst (policy_set k v pol))))"
    using lru_set_facts(2) [of k v] lfu_set_facts(3) [of _ k v] fifo_set_facts(2) [of k v]
    by (cases pol; simp add: policy_defs split_beta)
  show "policy_capacity (snd (policy_set k v pol)) = policy_capacity pol"
    using lru_set_facts(3) fifo_set_facts(3)
    by (cases pol; simp add: policy_defs split_beta lfu_set_def Let_def if_minFrequency split: option.splits)
  show "evicts_by_order (snd (policy_set k v pol)) = evicts_by_order pol"
    by (cases pol; simp add: policy_defs split_beta)
qed

lemma policy_clear_facts:
  "policy_ok (policy_clear pol)"
  "policy_keys (policy_clear pol) = []"
  "policy_capacity (policy_clear pol) = policy_capacity pol"
  "evicts_by_order (policy_clear pol) = evicts_by_order pol"
  by (cases pol; simp add: policy_defs lru_clear_def lfu_clear_def fifo_clear_def lfu_ok_def)+

section \<open>What the engine keeps true\<close>

lemma store_bytes_delete:
  "distinct (map fst al) \<Longrightarrow> map_of al k = Some e \<Longrightarrow>
     store_bytes (AList.delete k al) = store_bytes al - int (entry_size e)"
proof (induction al)
  case Nil
  then show ?case by simp
next
  case (Cons a al)
  show ?case
  proof (cases "fst a = k")
    case True
    then have "k \<notin> fst ` set al" using Cons.prems(1) by auto
    then have "AList.delete k al = al" by simp
    then show ?thesis using True Cons.prems(2) by (cases a) (simp add: store_bytes_def)
  next
    case False
    then show ?thesis using Cons by (cases a) (auto simp: store_bytes_def)
  qed
qed

lemma store_bytes_update_new:
  "map_of al k = None \<Longrightarrow> store_bytes (AList.update k e al) = store_bytes al + int (entry_size e)"
  by (induction al) (auto simp: store_bytes_def)

lemma store_bytes_update_old:
  "map_of al k = Some e0 \<Longrightarrow>
     store_bytes (AList.update k e al) = store_bytes al - int (entry_size e0) + int (entry_size e)"
  by (induction al) (auto simp: store_bytes_def)

lemma length_update_old: "map_of al k = Some e0 \<Longrightarrow> length (AList.update k e al) = length al"
  by (induction al) auto

lemma shrinks_refl [simp]: "shrinks s s"
  by (simp add: shrinks_def)

lemma shrinks_trans: "shrinks s s1 \<Longrightarrow> shrinks s1 s2 \<Longrightarrow> shrinks s s2"
  by (auto simp: shrinks_def)

lemma shrinks_stats [simp]: "shrinks s (s'\<lparr>stats := st\<rparr>) = shrinks s s'"
  by (simp add: shrinks_def)

lemma shrinks_stats_left [simp]: "shrinks (s\<lparr>stats := st\<rparr>) s' = shrinks s s'"
  by (simp add: shrinks_def)

lemma engine_inv_stats [simp]: "engine_inv (s\<lparr>stats := st\<rparr>) = engine_inv s"
  by (simp add: engine_inv_def)

lemma bounded_shrinks: "bounded s \<Longrightarrow> shrinks s s' \<Longrightarrow> bounded s'"
  by (auto simp: bounded_def shrinks_def)

subsection \<open>delete\<close>

lemma engine_delete_policy_ok:
  "policy_ok (evictionPolicy s) \<Longrightarrow> policy_ok (evictionPolicy (snd (engine_delete k s)))"
  by (auto simp: engine_delete_def policy_delete_facts split: option.splits)

lemma engine_delete_shrinks: "shrinks s (snd (engine_delete k s))"
  by (auto simp: engine_delete_def shrinks_def policy_delete_facts AList.length_delete_le
           split: option.splits)

lemma engine_delete_inv: "engine_inv s \<Longrightarrow> engine_inv (snd (engine_delete k s))"
  by (auto simp: engine_delete_def engine_inv_def policy_delete_facts AList.distinct_delete
                 keys_delete store_bytes_delete split: option.splits)

lemma engine_delete_absent: "map_of (store (snd (engine_delete k s))) k = None"
  by (auto simp: engine_delete_def AList.delete_conv' split: option.splits)

subsection \<open>evictOne and enforceMemoryLimit\<close>

lemma evictOne_policy_ok:
  "policy_ok (evictionPolicy s) \<Longrightarrow> policy_ok (evictionPolicy (snd (evictOne s)))"
  by (auto simp: evictOne_def Let_def split_beta policy_evict_facts split: option.splits)

lemma evictOne_shrinks: "shrinks s (snd (evictOne s))"
  by (auto simp: evictOne_def Let_def split_beta shrinks_def policy_evict_facts
                 AList.length_delete_le split: option.splits)

lemma evictOne_inv:
  assumes "engine_inv s"
  shows "engine_inv (snd (evictOne s))"
proof (cases "fst (policy_evict (evictionPolicy s))")
  case None
  then have "snd (policy_evict (evictionPolicy s)) = evictionPolicy s"
    by (rule policy_evict_facts)
  then show ?thesis using None assms
    by (simp add: evictOne_def Let_def split_beta engine_inv_def)
next
  case (Some e)
  have ok: "policy_ok (evictionPolicy s)" using assms by (simp add: engine_inv_def)
  have "e \<in> set (policy_keys (evictionPolicy s))"
    using policy_evict_facts(3) [OF ok Some] .
  then have e: "e \<in> fst ` set (store s)" "e \<noteq> []"
    using assms by (force simp: engine_inv_def)+
  then obtain entry where entry: "map_of (store s) e = Some entry"
    using map_of_None_keys [of "store s" e] by auto
  show ?thesis using Some e entry assms policy_evict_facts(4) [OF ok]
    by (simp add: evictOne_def Let_def split_beta engine_inv_def policy_evict_facts
        AList.distinct_delete keys_delete store_bytes_delete)
qed

lemma evictOne_evicts:
  assumes "engine_inv s" and "evicts_by_order (evictionPolicy s)" and "store s \<noteq> []"
  shows "fst (evictOne s) \<noteq> None"
proof -
  have ok: "policy_ok (evictionPolicy s)" using assms by (simp add: engine_inv_def)
  have "set (policy_keys (evictionPolicy s)) \<noteq> {}" using assms by (simp add: engine_inv_def)
  then have "policy_keys (evictionPolicy s) \<noteq> []" by auto
  then obtain e where Some: "fst (policy_evict (evictionPolicy s)) = Some e"
    using policy_evict_facts(7) [OF assms(2)] by auto
  have "e \<in> set (policy_keys (evictionPolicy s))"
    using policy_evict_facts(3) [OF ok Some] .
  then have e: "e \<in> fst ` set (store s)" "e \<noteq> []"
    using assms by (force simp: engine_inv_def)+
  then obtain entry where entry: "map_of (store s) e = Some entry"
    using map_of_None_keys [of "store s" e] by auto
  show ?thesis using Some e entry
    by (simp add: evictOne_def Let_def split_beta)
qed

lemma enforce_stop:
  "\<not> (currentMemoryBytes s + int r > memoryThreshold s \<and> length (store s) > 0) \<Longrightarrow>
     enforceMemoryLimit r s = s"
  by (auto simp: enforceMemoryLimit.simps [of r s])

lemma enforce_break:
  "currentMemoryBytes s + int r > memoryThreshold s \<and> length (store s) > 0 \<Longrightarrow>
     evictOne s = (None, s1) \<Longrightarrow> enforceMemoryLimit r s = s1"
  by (simp add: enforceMemoryLimit.simps [of r s])

lemma enforce_step:
  "currentMemoryBytes s + int r > memoryThreshold s \<and> length (store s) > 0 \<Longrightarrow>
     evictOne s = (Some k, s1) \<Longrightarrow> enforceMemoryLimit r s = enforceMemoryLimit r s1"
  by (simp add: enforceMemoryLimit.simps [of r s])

lemma enforce_preserves:
  assumes "P s" and "\<And>s. P s \<Longrightarrow> P (snd (evictOne s))"
  shows "P (enforceMemoryLimit r s)"
  using assms(1)
proof (induction r s rule: enforceMemoryLimit.induct)
  case (1 r s)
  show ?case
  proof (cases "currentMemoryBytes s + int r > memoryThreshold s \<and> length (store s) > 0")
    case False
    then show ?thesis using "1.prems" by (simp add: enforce_stop)
  next
    case True
    obtain ev s1 where e: "evictOne s = (ev, s1)" by (cases "evictOne s")
    have P1: "P s1" using assms(2) [OF "1.prems"] e by simp
    show ?thesis
    proof (cases ev)
      case None
      then show ?thesis using enforce_break [OF True] e P1 by simp
    next
      case (Some k)
      have "P (enforceMemoryLimit r s1)"
        using "1.IH" [OF True e [symmetric] Some P1] .
      then show ?thesis using enforce_step [OF True] e Some by simp
    qed
  qed
qed

lemma enforceMemoryLimit_policy_ok:
  "policy_ok (evictionPolicy s) \<Longrightarrow> policy_ok (evictionPolicy (enforceMemoryLimit r s))"
  by (rule enforce_preserves [where P = "\<lambda>s. policy_ok (evictionPolicy s)"])
     (simp_all add: evictOne_policy_ok)

lemma enforceMemoryLimit_inv: "engine_inv s \<Longrightarrow> engine_inv (enforceMemoryLimit r s)"
  by (rule enforce_preserves [where P = engine_inv]) (simp_all add: evictOne_inv)

lemma enforceMemoryLimit_shrinks: "shrinks s (enforceMemoryLimit r s)"
  by (rule enforce_preserves [where P = "shrinks s"])
     (auto intro: shrinks_trans evictOne_shrinks)

lemma enforceMemoryLimit_makes_room:
  assumes "engine_inv s" and "evicts_by_order (evictionPolicy s)"
  shows "currentMemoryBytes (enforceMemoryLimit r s) + int r \<le> memoryThreshold (enforceMemoryLimit r s)
         \<or> store (enforceMemoryLimit r s) = []"
  using assms
proof (induction r s rule: enforceMemoryLimit.induct)
  case (1 r s)
  show ?case
  proof (cases "currentMemoryBytes s + int r > memoryThreshold s \<and> length (store s) > 0")
    case False
    then show ?thesis by (auto simp: enforce_stop)
  next
    case True
    obtain ev s1 where e: "evictOne s = (ev, s1)" by (cases "evictOne s")
    have "fst (evictOne s) \<noteq> None"
      using evictOne_evicts [OF "1.prems"] True by auto
    then obtain k where Some: "ev = Some k" using e by auto
    have inv1: "engine_inv s1" using evictOne_inv [OF "1.prems"(1)] e by simp
    have ord1: "evicts_by_order (evictionPolicy s1)"
      using evictOne_shrinks [of s] e "1.prems"(2) by (simp add: shrinks_def)
    show ?thesis
      using "1.IH" [OF True e [symmetric] Some inv1 ord1] enforce_step [OF True] e Some by simp
  qed
qed

subsection \<open>set\<close>

lemma engine_set_cases:
  fixes s :: "'n CacheEngine" and key :: string and v :: "'n json" and ttl :: "nat option"
    and now :: nat
  defines "s1 \<equiv> made_room key v s"
  defines "entry \<equiv> new_entry key v ttl now"
  defines "pol \<equiv> policy_set key () (evictionPolicy s1)"
  obtains
    (existing) old where "map_of (store s1) key = Some old"
      "snd (engine_set key v ttl now s) =
         s1\<lparr>currentMemoryBytes := currentMemoryBytes s1 - int (entry_size old) + int (entry_size entry),
            store := AList.update key entry (store s1),
            evictionPolicy := snd pol\<rparr>"
  | (inserted) "map_of (store s1) key = None"
      "fst pol = None \<or> fst pol = Some [] \<or>
         (\<exists>k. fst pol = Some k \<and> map_of (AList.update key entry (store s1)) k = None)"
      "snd (engine_set key v ttl now s) =
         s1\<lparr>store := AList.update key entry (store s1),
            currentMemoryBytes := currentMemoryBytes s1 + int (entry_size entry),
            evictionPolicy := snd pol\<rparr>"
  | (evicting) k evicted where "map_of (store s1) key = None"
      "fst pol = Some k" "k \<noteq> []" "map_of (AList.update key entry (store s1)) k = Some evicted"
      "snd (engine_set key v ttl now s) =
         s1\<lparr>store := AList.delete k (AList.update key entry (store s1)),
            currentMemoryBytes :=
              currentMemoryBytes s1 + int (entry_size entry) - int (entry_size evicted),
            evictionPolicy := snd pol,
            stats := recordEviction (stats s1)\<rparr>"
proof (cases "map_of (store s1) key")
  case (Some old)
  then have "snd (engine_set key v ttl now s) =
         s1\<lparr>currentMemoryBytes := currentMemoryBytes s1 - int (entry_size old) + int (entry_size entry),
            store := AList.update key entry (store s1),
            evictionPolicy := snd pol\<rparr>"
    unfolding engine_set_def Let_def
    by (simp add: s1_def made_room_def entry_def new_entry_def pol_def)
  then show ?thesis using Some existing by blast
next
  case None
  show ?thesis
  proof (cases "fst pol")
    case pNone: None
    have "snd (engine_set key v ttl now s) =
         s1\<lparr>store := AList.update key entry (store s1),
            currentMemoryBytes := currentMemoryBytes s1 + int (entry_size entry),
            evictionPolicy := snd pol\<rparr>"
      using None pNone unfolding engine_set_def Let_def
      by (simp add: s1_def made_room_def entry_def new_entry_def pol_def split_beta)
    then show ?thesis using None pNone inserted by blast
  next
    case (Some k)
    show ?thesis
    proof (cases "k = [] \<or> map_of (AList.update key entry (store s1)) k = None")
      case True
      have "snd (engine_set key v ttl now s) =
         s1\<lparr>store := AList.update key entry (store s1),
            currentMemoryBytes := currentMemoryBytes s1 + int (entry_size entry),
            evictionPolicy := snd pol\<rparr>"
        using None Some True unfolding engine_set_def Let_def
        by (auto simp: s1_def made_room_def entry_def new_entry_def pol_def split_beta)
      then show ?thesis using None Some True inserted by blast
    next
      case False
      then obtain evicted where ev: "map_of (AList.update key entry (store s1)) k = Some evicted"
        by auto
      have "snd (engine_set key v ttl now s) =
         s1\<lparr>store := AList.delete k (AList.update key entry (store s1)),
            currentMemoryBytes :=
              currentMemoryBytes s1 + int (entry_size entry) - int (entry_size evicted),
            evictionPolicy := snd pol,
            stats := recordEviction (stats s1)\<rparr>"
        using None Some False ev unfolding engine_set_def Let_def
        by (simp add: s1_def made_room_def entry_def new_entry_def pol_def split_beta)
      then show ?thesis using None Some False ev evicting by blast
    qed
  qed
qed

lemma made_room_facts:
  "policy_ok (evictionPolicy s) \<Longrightarrow> policy_ok (evictionPolicy (made_room key v s))"
  "engine_inv s \<Longrightarrow> engine_inv (made_room key v s)"
  "shrinks s (made_room key v s)"
  by (simp_all add: made_room_def enforceMemoryLimit_policy_ok enforceMemoryLimit_inv
        enforceMemoryLimit_shrinks)

lemma made_room_fits:
  assumes "engine_inv s" and "evicts_by_order (evictionPolicy s)"
  shows "currentMemoryBytes (made_room key v s) + int (calculateEntrySize key v)
           \<le> memoryThreshold (made_room key v s) \<or> store (made_room key v s) = []"
  using enforceMemoryLimit_makes_room [OF assms, of "calculateEntrySize key v"]
  by (auto simp: made_room_def)

lemma engine_set_policy_ok:
  assumes "policy_ok (evictionPolicy s)"
  shows "policy_ok (evictionPolicy (snd (engine_set key v ttl now s)))"
proof -
  have "policy_ok (snd (policy_set key () (evictionPolicy (made_room key v s))))"
    using assms by (simp add: made_room_facts policy_set_facts)
  then show ?thesis
    by (cases rule: engine_set_cases [where key = key and v = v and s = s and ttl = ttl and now = now])
       simp_all
qed

lemma engine_set_stores:
  assumes "policy_ok (evictionPolicy s)"
  shows "map_of (store (snd (engine_set key v ttl now s))) key = Some (new_entry key v ttl now)"
proof (cases rule: engine_set_cases [where key = key and v = v and s = s and ttl = ttl and now = now])
  case (existing old)
  then show ?thesis by (simp add: AList.update_conv')
next
  case inserted
  then show ?thesis by (simp add: AList.update_conv')
next
  case (evicting k evicted)
  have "policy_ok (evictionPolicy (made_room key v s))" using assms by (simp add: made_room_facts)
  then have "k \<noteq> key" using policy_set_facts(2) [OF _ evicting(2)] by auto
  then show ?thesis using evicting by (simp add: AList.update_conv')
qed

lemma engine_set_limits:
  "memoryThreshold (snd (engine_set key v ttl now s)) = memoryThreshold s"
  "maxMemoryBytes (snd (engine_set key v ttl now s)) = maxMemoryBytes s"
  "evicts_by_order (evictionPolicy (snd (engine_set key v ttl now s)))
     = evicts_by_order (evictionPolicy s)"
  using made_room_facts(3) [of s key v]
  by (cases rule: engine_set_cases [where key = key and v = v and s = s and ttl = ttl and now = now];
      simp add: shrinks_def policy_set_facts)+

lemma engine_set_inv:
  assumes "engine_inv s" and "key \<noteq> []"
  shows "engine_inv (snd (engine_set key v ttl now s))"
proof -
  let ?s1 = "made_room key v s"
  let ?entry = "new_entry key v ttl now"
  have inv1: "engine_inv ?s1" using assms by (simp add: made_room_facts)
  then have ok1: "policy_ok (evictionPolicy ?s1)"
    and cap1: "policy_capacity (evictionPolicy ?s1) \<noteq> 0"
    and dist1: "distinct (map fst (store ?s1))"
    and keys1: "set (policy_keys (evictionPolicy ?s1)) = fst ` set (store ?s1)"
    and ne1: "[] \<notin> fst ` set (store ?s1)"
    and cur1: "currentMemoryBytes ?s1 = store_bytes (store ?s1)"
    by (simp_all add: engine_inv_def)
  show ?thesis
  proof (cases rule: engine_set_cases [where key = key and v = v and s = s and ttl = ttl and now = now])
    case (existing old)
    have "key \<in> fst ` set (store ?s1)" using existing(1) by (rule map_of_Some_keys)
    then show ?thesis
      using existing ok1 cap1 dist1 keys1 ne1 cur1 policy_set_facts(3) [OF ok1, where k = key and v = "()"]
      by (auto simp: engine_inv_def policy_set_facts AList.distinct_update keys_update
          store_bytes_update_old)
  next
    case inserted
    have nin: "key \<notin> fst ` set (store ?s1)" using inserted(1) by (simp add: map_of_None_keys)
    have "fst (policy_set key () (evictionPolicy ?s1)) = None"
    proof (cases "fst (policy_set key () (evictionPolicy ?s1))")
      case (Some k)
      then have "k \<in> fst ` set (store ?s1)" using policy_set_facts(2) [OF ok1 Some] keys1 by simp
      then have "k \<noteq> []" "map_of (AList.update key ?entry (store ?s1)) k \<noteq> None"
        using ne1 by (force simp: map_of_None_keys keys_update)+
      then show ?thesis using inserted(2) Some by auto
    qed simp
    then show ?thesis
      using inserted nin ok1 cap1 dist1 keys1 ne1 cur1 assms(2)
        policy_set_facts(3) [OF ok1, where k = key and v = "()"]
      by (auto simp: engine_inv_def policy_set_facts AList.distinct_update keys_update
          store_bytes_update_new)
  next
    case (evicting k evicted)
    have nin: "key \<notin> fst ` set (store ?s1)" using evicting(1) by (simp add: map_of_None_keys)
    have k: "k \<in> fst ` set (store ?s1)" using policy_set_facts(2) [OF ok1 evicting(2)] keys1 by simp
    then have kk: "k \<noteq> key" using nin by auto
    have d: "distinct (map fst (AList.update key ?entry (store ?s1)))"
      using dist1 by (simp add: AList.distinct_update)
    have b: "store_bytes (AList.delete k (AList.update key ?entry (store ?s1)))
               = store_bytes (store ?s1) + int (entry_size ?entry) - int (entry_size evicted)"
      using store_bytes_delete [OF d evicting(4)] evicting(1)
      by (simp add: store_bytes_update_new)
    show ?thesis
      using evicting nin k kk ok1 cap1 dist1 keys1 ne1 cur1 assms(2) b
        policy_set_facts(3) [OF ok1, where k = key and v = "()"]
      by (auto simp: engine_inv_def policy_set_facts AList.distinct_update AList.distinct_delete
          keys_update keys_delete)
  qed
qed

lemma engine_set_bounded:
  assumes "engine_inv s" and "bounded s"
  shows "bounded (snd (engine_set key v ttl now s))"
proof -
  let ?s1 = "made_room key v s"
  let ?entry = "new_entry key v ttl now"
  have inv1: "engine_inv ?s1" using assms by (simp add: made_room_facts)
  then have ok1: "policy_ok (evictionPolicy ?s1)"
    and keys1: "set (policy_keys (evictionPolicy ?s1)) = fst ` set (store ?s1)"
    by (simp_all add: engine_inv_def)
  have ord: "evicts_by_order (evictionPolicy (snd (engine_set key v ttl now s)))"
    "0 \<le> memoryThreshold (snd (engine_set key v ttl now s))"
    "memoryThreshold (snd (engine_set key v ttl now s)) \<le> maxMemoryBytes (snd (engine_set key v ttl now s))"
    using assms(2) by (simp_all add: engine_set_limits bounded_def)
  have "evicts_by_order (evictionPolicy s)" using assms(2) by (simp add: bounded_def)
  then have fits: "currentMemoryBytes ?s1 + int (entry_size ?entry) \<le> memoryThreshold ?s1
                \<or> store ?s1 = []"
    using made_room_fits [OF assms(1), of key v] by (simp add: new_entry_def)
  show ?thesis
  proof (cases rule: engine_set_cases [where key = key and v = v and s = s and ttl = ttl and now = now])
    case (existing old)
    then have "store ?s1 \<noteq> []" by auto
    then show ?thesis using existing fits ord by (simp add: bounded_def)
  next
    case inserted
    then show ?thesis using fits ord by (auto simp: bounded_def)
  next
    case (evicting k evicted)
    have "k \<in> fst ` set (store ?s1)" using policy_set_facts(2) [OF ok1 evicting(2)] keys1 by simp
    then have "store ?s1 \<noteq> []" by auto
    then show ?thesis using evicting fits ord by (simp add: bounded_def)
  qed
qed

subsection \<open>get, exists, updateTTL, clear\<close>

lemma engine_get_policy_ok:
  "policy_ok (evictionPolicy s) \<Longrightarrow> policy_ok (evictionPolicy (snd (engine_get k now s)))"
  by (auto simp: engine_get_def Let_def engine_delete_policy_ok policy_get_facts
           split: option.splits)

lemma engine_get_shrinks: "shrinks s (snd (engine_get k now s))"
  using engine_delete_shrinks [of s k]
  by (auto simp: engine_get_def Let_def shrinks_def policy_get_facts split: option.splits)

lemma engine_get_inv: "engine_inv s \<Longrightarrow> engine_inv (snd (engine_get k now s))"
  using engine_delete_inv [of s k]
  by (auto simp: engine_get_def Let_def engine_inv_def policy_get_facts split: option.splits)

lemma engine_exists_policy_ok:
  "policy_ok (evictionPolicy s) \<Longrightarrow> policy_ok (evictionPolicy (snd (engine_exists k now s)))"
  by (auto simp: engine_exists_def Let_def engine_delete_policy_ok split: option.splits)

lemma engine_exists_shrinks: "shrinks s (snd (engine_exists k now s))"
  using engine_delete_shrinks [of s k]
  by (auto simp: engine_exists_def Let_def split: option.splits)

lemma engine_exists_inv: "engine_inv s \<Longrightarrow> engine_inv (snd (engine_exists k now s))"
  using engine_delete_inv [of s k]
  by (auto simp: engine_exists_def Let_def split: option.splits)

lemma updateTTL_policy [simp]:
  "evictionPolicy (snd (updateTTL k ttl now s)) = evictionPolicy s"
  by (auto simp: updateTTL_def split: option.splits)

lemma updateTTL_shrinks: "shrinks s (snd (updateTTL k ttl now s))"
  by (auto simp: updateTTL_def shrinks_def length_update_old split: option.splits)

lemma updateTTL_inv: "engine_inv s \<Longrightarrow> engine_inv (snd (updateTTL k ttl now s))"
proof (cases "map_of (store s) k")
  case None
  assume "engine_inv s"
  with None show ?thesis by (simp add: updateTTL_def)
next
  case (Some entry)
  assume inv: "engine_inv s"
  have "k \<in> fst ` set (store s)" using Some by (rule map_of_Some_keys)
  then show ?thesis using Some inv store_bytes_update_old [OF Some, of "entry\<lparr>expiresAt := Some (now + ttl)\<rparr>"]
    by (auto simp: updateTTL_def engine_inv_def AList.distinct_update keys_update)
qed

lemma engine_clear_policy_ok: "policy_ok (evictionPolicy (engine_clear s))"
  by (simp add: engine_clear_def policy_clear_facts)

lemma engine_clear_inv: "engine_inv s \<Longrightarrow> engine_inv (engine_clear s)"
  by (simp add: engine_clear_def engine_inv_def policy_clear_facts store_bytes_def)

lemma engine_clear_bounded: "bounded s \<Longrightarrow> bounded (engine_clear s)"
  by (simp add: engine_clear_def bounded_def policy_clear_facts)

subsection \<open>increment and the loops\<close>

lemma increment_state:
  "snd (increment k a now s) = snd (engine_get k now s) \<or>
   (\<exists>v. snd (increment k a now s) = snd (engine_set k v None now (snd (engine_get k now s))))"
  by (auto simp: increment_def Let_def split_beta split: json.splits)

lemma increment_policy_ok:
  "policy_ok (evictionPolicy s) \<Longrightarrow> policy_ok (evictionPolicy (snd (increment k a now s)))"
  using increment_state [of k a now s] engine_get_policy_ok [of s k now] engine_set_policy_ok
  by auto

lemma increment_inv:
  "engine_inv s \<Longrightarrow> k \<noteq> [] \<Longrightarrow> engine_inv (snd (increment k a now s))"
  using increment_state [of k a now s] engine_get_inv [of s k now] engine_set_inv
  by auto

lemma increment_bounded:
  "engine_inv s \<Longrightarrow> bounded s \<Longrightarrow> bounded (snd (increment k a now s))"
  using increment_state [of k a now s] engine_get_inv [of s k now]
    bounded_shrinks [OF _ engine_get_shrinks, of s k now] engine_set_bounded
  by auto

lemma cleanup_loop_facts:
  "policy_ok (evictionPolicy s) \<Longrightarrow> policy_ok (evictionPolicy (snd (cleanup_loop es now n s)))"
  "engine_inv s \<Longrightarrow> engine_inv (snd (cleanup_loop es now n s))"
  "shrinks s (snd (cleanup_loop es now n s))"
proof (induction es now n s rule: cleanup_loop.induct)
  case (1 now cleaned s)
  { case 1 then show ?case by simp }
  { case 2 then show ?case by simp }
  { case 3 then show ?case by simp }
next
  case (2 key entry rest now cleaned s)
  { case 1 then show ?case using 2 by (simp add: Let_def engine_delete_policy_ok) }
  { case 2 then show ?case using "2.IH" by (simp add: Let_def engine_delete_inv) }
  { case 3 show ?case
      using "2.IH"(3,6) engine_delete_shrinks [of s key]
      by (auto simp: Let_def intro: shrinks_trans) }
qed

lemma getMultiple_loop_facts:
  "policy_ok (evictionPolicy s) \<Longrightarrow> policy_ok (evictionPolicy (snd (getMultiple_loop ks res s)))"
  "engine_inv s \<Longrightarrow> engine_inv (snd (getMultiple_loop ks res s))"
  "shrinks s (snd (getMultiple_loop ks res s))"
proof (induction ks res s rule: getMultiple_loop.induct)
  case (1 result s)
  { case 1 then show ?case by simp }
  { case 2 then show ?case by simp }
  { case 3 then show ?case by simp }
next
  case (2 key now rest result s)
  obtain v s1 where g: "engine_get key now s = (v, s1)" by (cases "engine_get key now s")
  { case 1 then show ?case using "2.IH"(1) [OF g [symmetric] refl] g engine_get_policy_ok [of s key now]
      by simp }
  { case 2 then show ?case using "2.IH"(2) [OF g [symmetric] refl] g engine_get_inv [of s key now]
      by simp }
  { case 3 show ?case using "2.IH"(3) [OF g [symmetric] refl] g engine_get_shrinks [of s key now]
      by (auto intro: shrinks_trans) }
qed

lemma deleteMultiple_loop_facts:
  "policy_ok (evictionPolicy s) \<Longrightarrow> policy_ok (evictionPolicy (snd (deleteMultiple_loop ks res s)))"
  "engine_inv s \<Longrightarrow> engine_inv (snd (deleteMultiple_loop ks res s))"
  "shrinks s (snd (deleteMultiple_loop ks res s))"
proof (induction ks res s rule: deleteMultiple_loop.induct)
  case (1 deletedKeys s)
  { case 1 then show ?case by simp }
  { case 2 then show ?case by simp }
  { case 3 then show ?case by simp }
next
  case (2 key rest deletedKeys s)
  obtain d s1 where g: "engine_delete key s = (d, s1)" by (cases "engine_delete key s")
  { case 1 then show ?case using "2.IH"(1) [OF g [symmetric] refl] g engine_delete_policy_ok [of s key]
      by simp }
  { case 2 then show ?case using "2.IH"(2) [OF g [symmetric] refl] g engine_delete_inv [of s key]
      by simp }
  { case 3 show ?case using "2.IH"(3) [OF g [symmetric] refl] g engine_delete_shrinks [of s key]
      by (auto intro: shrinks_trans) }
qed

lemma setMultiple_policy_ok:
  "policy_ok (evictionPolicy s) \<Longrightarrow> policy_ok (evictionPolicy (snd (setMultiple es s)))"
  by (induction es s rule: setMultiple.induct) (simp_all add: engine_set_policy_ok)

lemma setMultiple_inv:
  "engine_inv s \<Longrightarrow> list_all (\<lambda>e. fst (fst e) \<noteq> []) es \<Longrightarrow> engine_inv (snd (setMultiple es s))"
  by (induction es s rule: setMultiple.induct) (simp_all add: engine_set_inv)

lemma setMultiple_bounded:
  "engine_inv s \<Longrightarrow> bounded s \<Longrightarrow> list_all (\<lambda>e. fst (fst e) \<noteq> []) es \<Longrightarrow>
     bounded (snd (setMultiple es s))"
  by (induction es s rule: setMultiple.induct) (simp_all add: engine_set_inv engine_set_bounded)

subsection \<open>Reachable states\<close>

lemma perform_policy_ok:
  "policy_ok (evictionPolicy s) \<Longrightarrow> policy_ok (evictionPolicy (perform s op))"
  by (cases op)
     (simp_all add: engine_get_policy_ok engine_set_policy_ok engine_delete_policy_ok
        engine_exists_policy_ok increment_policy_ok engine_clear_policy_ok cleanup_def
        cleanup_loop_facts getMultiple_def getMultiple_loop_facts setMultiple_policy_ok
        deleteMultiple_def deleteMultiple_loop_facts)

lemma perform_inv:
  "engine_inv s \<Longrightarrow> nonempty_keys op \<Longrightarrow> engine_inv (perform s op)"
  by (cases op)
     (simp_all add: engine_get_inv engine_set_inv engine_delete_inv engine_exists_inv
        increment_inv updateTTL_inv engine_clear_inv cleanup_def cleanup_loop_facts
        getMultiple_def getMultiple_loop_facts setMultiple_inv deleteMultiple_def
        deleteMultiple_loop_facts)

lemma perform_bounded:
  assumes "engine_inv s" and "bounded s" and "nonempty_keys op"
  shows "bounded (perform s op)"
proof (cases op)
  case (Set key v ttl now)
  then show ?thesis using assms by (simp add: engine_set_bounded)
next
  case (Increment key amount now)
  then show ?thesis using assms by (simp add: increment_bounded)
next
  case Clear
  then show ?thesis using assms by (simp add: engine_clear_bounded)
next
  case (SetMultiple entries)
  then show ?thesis using assms by (simp add: setMultiple_bounded)
qed (use assms in \<open>simp_all add: bounded_shrinks [OF _ engine_get_shrinks]
      bounded_shrinks [OF _ engine_delete_shrinks] bounded_shrinks [OF _ engine_exists_shrinks]
      bounded_shrinks [OF _ updateTTL_shrinks] cleanup_def getMultiple_def deleteMultiple_def
      bounded_shrinks [OF _ cleanup_loop_facts(3)] bounded_shrinks [OF _ getMultiple_loop_facts(3)]
      bounded_shrinks [OF _ deleteMultiple_loop_facts(3)]\<close>)

lemma run_snoc: "run cfg (ops @ [op]) = perform (run cfg ops) op"
  by (simp add: run_def)

lemma new_CacheEngine_policy_ok: "policy_ok (evictionPolicy (new_CacheEngine cfg))"
  by (cases "evictionPolicyName cfg")
     (simp_all add: new_CacheEngine_def createEvictionPolicy_def policy_ok_def new_LRUPolicy_def
        new_LFUPolicy_def new_FIFOPolicy_def lfu_ok_def)

lemma new_CacheEngine_inv: "maxKeys cfg \<noteq> 0 \<Longrightarrow> engine_inv (new_CacheEngine cfg)"
  using new_CacheEngine_policy_ok [of cfg]
  by (cases "evictionPolicyName cfg")
     (simp_all add: engine_inv_def new_CacheEngine_def createEvictionPolicy_def
        policy_capacity_def policy_keys_def new_LRUPolicy_def
        new_LFUPolicy_def new_FIFOPolicy_def store_bytes_def)

lemma threshold_range:
  assumes "0 \<le> maxMemoryMB cfg"
  shows "0 \<le> memoryThreshold (new_CacheEngine cfg) \<and>
         memoryThreshold (new_CacheEngine cfg) \<le> maxMemoryBytes (new_CacheEngine cfg)"
proof -
  define x where "x = maxMemoryMB cfg * 1024 * 1024"
  have "0 \<le> x" using assms by (simp add: x_def)
  then have "0 \<le> x * 9 div 10 \<and> x * 9 div 10 \<le> x" by presburger
  then show ?thesis unfolding new_CacheEngine_def x_def by simp
qed

text \<open>
  The hypothesis on \<^verbatim>\<open>maxMemoryMB\<close> is needed: with \<^verbatim>\<open>MAX_MEMORY_MB=-1\<close> the threshold
  \<^verbatim>\<open>Math.floor(-1048576 * 0.9)\<close> lies above \<^verbatim>\<open>maxMemoryBytes\<close>, and the empty cache above both.
\<close>

lemma negative_maxMemoryMB_threshold:
  "maxMemoryBytes (run \<lparr>maxMemoryMB = - 1, maxKeys = 10, evictionPolicyName = LRU\<rparr> []) = - 1048576 \<and>
   memoryThreshold (run \<lparr>maxMemoryMB = - 1, maxKeys = 10, evictionPolicyName = LRU\<rparr> []) = - 943719 \<and>
   currentMemoryBytes (run \<lparr>maxMemoryMB = - 1, maxKeys = 10, evictionPolicyName = LRU\<rparr> []) = 0 \<and>
   store (run \<lparr>maxMemoryMB = - 1, maxKeys = 10, evictionPolicyName = LRU\<rparr> []) = []"
  by (simp add: run_def new_CacheEngine_def)

lemma new_CacheEngine_bounded:
  "0 \<le> maxMemoryMB cfg \<Longrightarrow> evictionPolicyName cfg \<noteq> LFU \<Longrightarrow> bounded (new_CacheEngine cfg)"
  using threshold_range [of cfg]
  by (cases "evictionPolicyName cfg")
     (simp_all add: bounded_def, simp_all add: new_CacheEngine_def createEvictionPolicy_def evicts_by_order_def)

lemma run_policy_ok: "policy_ok (evictionPolicy (run cfg ops))"
  by (induction ops rule: rev_induct)
     (simp_all add: run_snoc perform_policy_ok, simp add: run_def new_CacheEngine_policy_ok)

lemma run_inv:
  "maxKeys cfg \<noteq> 0 \<Longrightarrow> list_all nonempty_keys ops \<Longrightarrow> engine_inv (run cfg ops)"
  by (induction ops rule: rev_induct)
     (simp_all add: run_snoc perform_inv, simp add: run_def new_CacheEngine_inv)

lemma run_bounded:
  "0 \<le> maxMemoryMB cfg \<Longrightarrow> maxKeys cfg \<noteq> 0 \<Longrightarrow> evictionPolicyName cfg \<noteq> LFU \<Longrightarrow>
     list_all nonempty_keys ops \<Longrightarrow> bounded (run cfg ops)"
  by (induction ops rule: rev_induct)
     (simp_all add: run_snoc perform_bounded run_inv, simp add: run_def new_CacheEngine_bounded)

lemma setMultiple_maxMemoryBytes:
  "maxMemoryBytes (snd (setMultiple es s)) = maxMemoryBytes s"
  by (induction es s rule: setMultiple.induct) (simp_all add: engine_set_limits)

lemma increment_maxMemoryBytes:
  "maxMemoryBytes (snd (increment k a now s)) = maxMemoryBytes s"
  using increment_state [of k a now s] engine_get_shrinks [of s k now]
  by (auto simp: shrinks_def engine_set_limits)

lemma perform_maxMemoryBytes: "maxMemoryBytes (perform s op) = maxMemoryBytes s"
proof (cases op)
  case (Get key now)
  then show ?thesis using engine_get_shrinks [of s key now] by (simp add: shrinks_def)
next
  case (Set key v ttl now)
  then show ?thesis by (simp add: engine_set_limits)
next
  case (Delete key)
  then show ?thesis using engine_delete_shrinks [of s key] by (simp add: shrinks_def)
next
  case (Exists key now)
  then show ?thesis using engine_exists_shrinks [of s key now] by (simp add: shrinks_def)
next
  case (Increment key amount now)
  then show ?thesis by (simp add: increment_maxMemoryBytes)
next
  case (UpdateTTL key ttl now)
  then show ?thesis using updateTTL_shrinks [of s key ttl now] by (simp add: shrinks_def)
next
  case Clear
  then show ?thesis by (simp add: engine_clear_def)
next
  case Keys
  then show ?thesis by simp
next
  case (Cleanup now)
  then show ?thesis using cleanup_loop_facts(3) [of s "store s" now 0]
    by (simp add: shrinks_def cleanup_def)
next
  case (GetMultiple keys)
  then show ?thesis using getMultiple_loop_facts(3) [of s keys "[]"]
    by (simp add: shrinks_def getMultiple_def)
next
  case (SetMultiple entries)
  then show ?thesis by (simp add: setMultiple_maxMemoryBytes)
next
  case (DeleteMultiple keys)
  then show ?thesis using deleteMultiple_loop_facts(3) [of s keys "[]"]
    by (simp add: shrinks_def deleteMultiple_def)
qed

lemma run_maxMemoryBytes: "maxMemoryBytes (run cfg ops) = maxMemoryMB cfg * 1048576"
  by (induction ops rule: rev_induct)
     (simp_all add: run_snoc perform_maxMemoryBytes, simp add: run_def new_CacheEngine_def)

lemma single_entry:
  assumes "engine_inv s" and "length (store s) \<le> 1" and "0 \<le> memoryThreshold s"
  shows "currentMemoryBytes s \<le> memoryThreshold s \<or>
         (\<exists>k e. store s = [(k, e)] \<and> currentMemoryBytes s = int (entry_size e))"
proof (cases "store s")
  case Nil
  then show ?thesis using assms by (simp add: engine_inv_def store_bytes_def)
next
  case (Cons a rest)
  then have "rest = []" using assms(2) by simp
  then show ?thesis using Cons assms(1) by (cases a) (simp add: engine_inv_def store_bytes_def)
qed

text \<open>
  C1, amended. With \<^verbatim>\<open>maxMemoryMB\<close> not negative, the LRU or the FIFO policy, \<^verbatim>\<open>maxKeys\<close>
  other than 0 and non-empty keys, in every state that a sequence of public operations
  reaches: \<^verbatim>\<open>maxMemoryBytes\<close> is \<^verbatim>\<open>maxMemoryMB\<close> times 1048576 and the threshold is at most
  \<^verbatim>\<open>maxMemoryBytes\<close>; \<^verbatim>\<open>currentMemoryBytes\<close> is at most the threshold, or exactly one entry is
  resident and \<^verbatim>\<open>currentMemoryBytes\<close> is its size; and the eviction loop that \<^verbatim>\<open>set\<close> runs for
  an entry of size \<open>r\<close> ends with \<^verbatim>\<open>currentMemoryBytes + r\<close> within the threshold or with an
  empty primary map.
\<close>

theorem memory_within_threshold:
  assumes "0 \<le> maxMemoryMB cfg" and "evictionPolicyName cfg \<noteq> LFU" and "maxKeys cfg \<noteq> 0"
    and "list_all nonempty_keys ops"
  shows "maxMemoryBytes (run cfg ops) = maxMemoryMB cfg * 1048576 \<and>
         memoryThreshold (run cfg ops) \<le> maxMemoryBytes (run cfg ops) \<and>
         (currentMemoryBytes (run cfg ops) \<le> memoryThreshold (run cfg ops) \<or>
            (\<exists>k e. store (run cfg ops) = [(k, e)] \<and>
                   currentMemoryBytes (run cfg ops) = int (entry_size e))) \<and>
         (currentMemoryBytes (enforceMemoryLimit r (run cfg ops)) + int r
            \<le> memoryThreshold (enforceMemoryLimit r (run cfg ops)) \<or>
          store (enforceMemoryLimit r (run cfg ops)) = [])"
proof -
  have inv: "engine_inv (run cfg ops)" using assms by (simp add: run_inv)
  have b: "bounded (run cfg ops)" using assms by (simp add: run_bounded)
  have 1: "memoryThreshold (run cfg ops) \<le> maxMemoryBytes (run cfg ops)"
    using b by (simp add: bounded_def)
  have 2: "currentMemoryBytes (run cfg ops) \<le> memoryThreshold (run cfg ops) \<or>
            (\<exists>k e. store (run cfg ops) = [(k, e)] \<and>
                   currentMemoryBytes (run cfg ops) = int (entry_size e))"
    using single_entry [OF inv] b by (auto simp: bounded_def)
  have 3: "currentMemoryBytes (enforceMemoryLimit r (run cfg ops)) + int r
            \<le> memoryThreshold (enforceMemoryLimit r (run cfg ops)) \<or>
          store (enforceMemoryLimit r (run cfg ops)) = []"
    using enforceMemoryLimit_makes_room [OF inv] b by (simp add: bounded_def)
  show ?thesis using run_maxMemoryBytes [of cfg ops] 1 2 3 by blast
qed

lemma estimate_replicate:
  "foldl (\<lambda>size item. size + estimateValueSize item) a (replicate n (JNum x)) = a + 8 * n"
  by (induction n arbitrary: a) simp_all

lemma big_value_size: "estimateValueSize big_value = 1048592"
  unfolding big_value_def estimateValueSize.simps estimate_replicate by simp

lemma big_entry_size: "calculateEntrySize ''big'' big_value = 1048659"
  by (simp add: calculateEntrySize_def big_value_size)

lemma new_engine_fields:
  "store (new_CacheEngine small_config) = []"
  "currentMemoryBytes (new_CacheEngine small_config) = 0"
  "memoryThreshold (new_CacheEngine small_config) = 943718"
  "maxMemoryBytes (new_CacheEngine small_config) = 1048576"
  "evictionPolicy (new_CacheEngine small_config) = PolicyLRU \<lparr>lru_capacity = 10, lru_nodes = []\<rparr>"
  by (simp_all add: new_CacheEngine_def small_config_def createEvictionPolicy_def new_LRUPolicy_def)

text \<open>
  C1 as stated fails: with \<^verbatim>\<open>maxMemoryMB = 1\<close> a single \<^verbatim>\<open>set\<close> of an array of 131072 numbers
  (1048659 bytes by the size estimate) finds the store empty, evicts nothing and inserts;
  \<^verbatim>\<open>currentMemoryBytes\<close> is then above \<^verbatim>\<open>maxMemoryBytes = 1048576\<close>.
\<close>

theorem oversized_entry_exceeds_maxMemoryBytes:
  "currentMemoryBytes (run small_config [Set ''big'' big_value None 0]) = 1048659 \<and>
   maxMemoryBytes (run small_config [Set ''big'' big_value None 0]) = 1048576 \<and>
   \<not> currentMemoryBytes (run small_config [Set ''big'' big_value None 0])
       \<le> maxMemoryBytes (run small_config [Set ''big'' big_value None 0])"
proof -
  let ?s0 = "new_CacheEngine small_config :: int CacheEngine"
  have room: "made_room ''big'' big_value ?s0 = ?s0"
    by (simp add: made_room_def big_entry_size new_engine_fields enforce_stop)
  have "snd (engine_set ''big'' big_value None 0 ?s0) =
      ?s0\<lparr>store := AList.update ''big'' (new_entry ''big'' big_value None 0) (store ?s0),
           currentMemoryBytes := currentMemoryBytes ?s0 + int (entry_size (new_entry ''big'' big_value None 0)),
           evictionPolicy := snd (policy_set ''big'' () (evictionPolicy ?s0))\<rparr>"
    by (cases rule: engine_set_cases [where key = "''big''" and v = big_value and s = ?s0
          and ttl = None and now = 0])
       (simp_all add: room new_engine_fields policy_set_def lru_set_def)
  then show ?thesis
    by (simp add: run_def new_engine_fields new_entry_def big_entry_size)
qed

lemma half_value_size: "estimateValueSize half_value = 524304"
  unfolding half_value_def estimateValueSize.simps estimate_replicate by simp

lemma half_entry_size:
  "calculateEntrySize ''a'' half_value = 524369" "calculateEntrySize ''b'' half_value = 524369"
  by (simp_all add: calculateEntrySize_def half_value_size)

lemma half_state_fields:
  "half_state =
     \<lparr>store = [(''a'', \<lparr>entry_value = half_value, expiresAt = None, entry_size = 524369\<rparr>)],
      evictionPolicy = PolicyLRU \<lparr>lru_capacity = 10, lru_nodes = [(''a'', ())]\<rparr>,
      stats = new_StatisticsTracker,
      maxMemoryBytes = 1048576,
      currentMemoryBytes = 524369,
      memoryThreshold = 943718\<rparr>"
  by (simp add: half_state_def run_def engine_set_def Let_def half_entry_size new_CacheEngine_def
      small_config_def createEvictionPolicy_def new_LRUPolicy_def policy_set_def lru_set_def
      lru_addToHead_def)

lemma evictOne_half_state:
  "evictOne half_state =
     (Some ''a'',
      \<lparr>store = [],
       evictionPolicy = PolicyLRU \<lparr>lru_capacity = 10, lru_nodes = []\<rparr>,
       stats = recordEviction new_StatisticsTracker,
       maxMemoryBytes = 1048576,
       currentMemoryBytes = 0,
       memoryThreshold = 943718\<rparr>)"
  by (simp add: evictOne_def Let_def half_state_fields policy_evict_def evictLRU_def
      lru_removeNode_def)

lemma enforce_half_state:
  "enforceMemoryLimit 524369 half_state =
     \<lparr>store = [],
      evictionPolicy = PolicyLRU \<lparr>lru_capacity = 10, lru_nodes = []\<rparr>,
      stats = recordEviction new_StatisticsTracker,
      maxMemoryBytes = 1048576,
      currentMemoryBytes = 0,
      memoryThreshold = 943718\<rparr>"
    (is "_ = ?e")
proof -
  have 1: "currentMemoryBytes half_state + int 524369 > memoryThreshold half_state \<and>
           length (store half_state) > 0"
    by (simp add: half_state_fields)
  have 2: "\<not> (currentMemoryBytes ?e + int 524369 > memoryThreshold ?e \<and> length (store ?e) > 0)"
    by simp
  show ?thesis
    using enforce_step [OF 1 evictOne_half_state] enforce_stop [OF 2] by simp
qed

lemma run_evicting_ops:
  "run small_config evicting_ops =
     \<lparr>store = [(''b'', \<lparr>entry_value = half_value, expiresAt = None, entry_size = 524369\<rparr>)],
      evictionPolicy = PolicyLRU \<lparr>lru_capacity = 10, lru_nodes = [(''b'', ())]\<rparr>,
      stats = recordEviction new_StatisticsTracker,
      maxMemoryBytes = 1048576,
      currentMemoryBytes = 524369,
      memoryThreshold = 943718\<rparr>"
proof -
  have r: "run small_config evicting_ops = snd (engine_set ''b'' half_value None 1 half_state)"
    by (simp add: run_def evicting_ops_def half_state_def)
  have m: "currentMemoryBytes half_state + int 524369 > memoryThreshold half_state"
    by (simp add: half_state_fields)
  show ?thesis
    unfolding r engine_set_def Let_def half_entry_size enforce_half_state
    using m
    by (simp add: policy_set_def lru_set_def lru_addToHead_def)
qed

text \<open>
  An instance with an eviction: with 1 MB, two entries of 524369 bytes do not fit under the
  threshold of 943718 bytes together, so the second \<^verbatim>\<open>set\<close> evicts the first entry and
  the state keeps the bound.
\<close>

theorem memory_within_threshold_witness:
  "0 \<le> maxMemoryMB small_config \<and> evictionPolicyName small_config \<noteq> LFU \<and>
   maxKeys small_config \<noteq> 0 \<and> list_all nonempty_keys evicting_ops \<and>
   evictions (stats (run small_config evicting_ops)) = 1 \<and>
   map fst (store (run small_config evicting_ops)) = [''b''] \<and>
   currentMemoryBytes (run small_config evicting_ops) = 524369 \<and>
   memoryThreshold (run small_config evicting_ops) = 943718 \<and>
   maxMemoryBytes (run small_config evicting_ops) = 1048576 \<and>
   currentMemoryBytes (run small_config evicting_ops) \<le> memoryThreshold (run small_config evicting_ops) \<and>
   memoryThreshold (run small_config evicting_ops) \<le> maxMemoryBytes (run small_config evicting_ops)"
proof -
  have h: "0 \<le> maxMemoryMB small_config"
    "evictionPolicyName small_config \<noteq> LFU" "maxKeys small_config \<noteq> 0"
    "list_all nonempty_keys evicting_ops"
    by (simp_all add: small_config_def evicting_ops_def)
  have v: "evictions (stats (run small_config evicting_ops)) = 1"
    "map fst (store (run small_config evicting_ops)) = [''b'']"
    "currentMemoryBytes (run small_config evicting_ops) = 524369"
    "memoryThreshold (run small_config evicting_ops) = 943718"
    unfolding run_evicting_ops by (simp_all add: recordEviction_def new_StatisticsTracker_def)
  show ?thesis
    using h v memory_within_threshold [OF h, of 0] by (simp add: small_config_def)
qed

section \<open>Reads: expired entries and \<^verbatim>\<open>null\<close> values\<close>

subsection \<open>get on one key\<close>

lemma engine_get_absent:
  "map_of (store s) key = None \<Longrightarrow>
     engine_get key now s = (JNull, s\<lparr>stats := recordMiss now (stats s)\<rparr>)"
  by (simp add: engine_get_def)

lemma engine_get_expired:
  assumes "map_of (store s) key = Some entry" and "isExpired entry now"
  shows "fst (engine_get key now s) = JNull"
    and "map_of (store (snd (engine_get key now s))) key = None"
    and "expirations (stats (snd (engine_get key now s))) = expirations (stats s) + 1"
    and "misses (stats (snd (engine_get key now s))) = misses (stats s) + 1"
  using assms
  by (simp_all add: engine_get_def Let_def engine_delete_def AList.delete_conv'
        recordMiss_def recordOperation_def recordExpiration_def)

lemma engine_get_live:
  assumes "map_of (store s) key = Some entry" and "\<not> isExpired entry now"
  shows "engine_get key now s =
           (entry_value entry,
            s\<lparr>evictionPolicy := snd (policy_get key (evictionPolicy s)),
              stats := recordHit now (stats s)\<rparr>)"
  using assms by (simp add: engine_get_def)

lemma engine_get_keeps_or_drops:
  "map_of (store (snd (engine_get k now s))) key = None \<or>
   map_of (store (snd (engine_get k now s))) key = map_of (store s) key"
  by (auto simp: engine_get_def Let_def engine_delete_def AList.delete_conv' split: option.splits)

lemma engine_exists_expired:
  assumes "map_of (store s) key = Some entry" and "isExpired entry now"
  shows "fst (engine_exists key now s) = False"
    and "map_of (store (snd (engine_exists key now s))) key = None"
    and "expirations (stats (snd (engine_exists key now s))) = expirations (stats s) + 1"
  using assms
  by (simp_all add: engine_exists_def Let_def engine_delete_def AList.delete_conv'
        recordExpiration_def)

subsection \<open>batch get\<close>

lemma getMultiple_loop_gone:
  "map_of (store s) key = None \<Longrightarrow> map_of (store (snd (getMultiple_loop ks res s))) key = None"
proof (induction ks res s rule: getMultiple_loop.induct)
  case (1 result s)
  then show ?case by simp
next
  case (2 k now rest result s)
  obtain v s1 where g: "engine_get k now s = (v, s1)" by (cases "engine_get k now s")
  have "map_of (store s1) key = None"
    using engine_get_keeps_or_drops [of k now s key] g "2.prems" by auto
  then show ?case using "2.IH" [OF g [symmetric] refl] g by simp
qed

lemma getMultiple_loop_removes:
  assumes "map_of (store s) key = Some entry" and "isExpired entry now" and "(key, now) \<in> set ks"
  shows "map_of (store (snd (getMultiple_loop ks res s))) key = None"
  using assms
proof (induction ks res s rule: getMultiple_loop.induct)
  case (1 result s)
  then show ?case by simp
next
  case (2 k n rest result s)
  obtain v s1 where g: "engine_get k n s = (v, s1)" by (cases "engine_get k n s")
  let ?res = "if v \<noteq> JNull then AList.update k v result else result"
  have step: "getMultiple_loop ((k, n) # rest) result s = getMultiple_loop rest ?res s1"
    using g by simp
  consider (gone) "map_of (store s1) key = None" | (kept) "map_of (store s1) key = Some entry"
    using engine_get_keeps_or_drops [of k n s key] g "2.prems"(1) by auto
  then show ?case
  proof cases
    case gone
    show ?thesis unfolding step by (rule getMultiple_loop_gone [OF gone])
  next
    case kept
    have "(k, n) \<noteq> (key, now)"
    proof
      assume "(k, n) = (key, now)"
      then have "map_of (store s1) key = None"
        using engine_get_expired(2) [OF "2.prems"(1,2)] g by simp
      then show False using kept by simp
    qed
    then have "(key, now) \<in> set rest" using "2.prems"(3) by auto
    then show ?thesis unfolding step by (rule "2.IH" [OF g [symmetric] refl kept "2.prems"(2)])
  qed
qed

lemma getMultiple_loop_omits:
  assumes "map_of (store s) key = None \<or> map_of (store s) key = Some entry"
    and "\<forall>n. (key, n) \<in> set ks \<longrightarrow> isExpired entry n \<or> entry_value entry = JNull"
    and "key \<notin> fst ` set res"
  shows "key \<notin> fst ` set (fst (getMultiple_loop ks res s))"
  using assms
proof (induction ks res s rule: getMultiple_loop.induct)
  case (1 result s)
  then show ?case by simp
next
  case (2 k n rest result s)
  obtain v s1 where g: "engine_get k n s = (v, s1)" by (cases "engine_get k n s")
  let ?res = "if v \<noteq> JNull then AList.update k v result else result"
  have step: "getMultiple_loop ((k, n) # rest) result s = getMultiple_loop rest ?res s1"
    using g by simp
  have s1: "map_of (store s1) key = None \<or> map_of (store s1) key = Some entry"
    using engine_get_keeps_or_drops [of k n s key] g "2.prems"(1) by auto
  have res: "key \<notin> fst ` set ?res"
  proof (cases "k = key")
    case False
    then show ?thesis using "2.prems"(3) by (simp add: keys_update)
  next
    case True
    have "v = JNull"
    proof (cases "map_of (store s) key")
      case None
      then show ?thesis using engine_get_absent [OF None, of n] g True by simp
    next
      case (Some e)
      then have e: "e = entry" using "2.prems"(1) by simp
      show ?thesis
      proof (cases "isExpired entry n")
        case True
        then show ?thesis using engine_get_expired(1) [OF Some [unfolded e] True] g \<open>k = key\<close> by simp
      next
        case False
        then have "entry_value entry = JNull" using "2.prems"(2) \<open>k = key\<close> by auto
        then show ?thesis using engine_get_live [OF Some [unfolded e] False] g \<open>k = key\<close> by simp
      qed
    qed
    then show ?thesis using "2.prems"(3) by simp
  qed
  have "\<forall>n. (key, n) \<in> set rest \<longrightarrow> isExpired entry n \<or> entry_value entry = JNull"
    using "2.prems"(2) by auto
  then show ?case unfolding step by (rule "2.IH" [OF g [symmetric] refl s1 _ res])
qed

subsection \<open>Expired entries\<close>

text \<open>
  C6, amended. For a resident key whose \<^verbatim>\<open>expiresAt\<close> is past at the instant of the call:
  \<^verbatim>\<open>get\<close> returns the miss value and \<^verbatim>\<open>exists\<close> returns false, and both remove the entry; a
  batch get that reads the key at that instant leaves it removed, and reports it only if
  another element of the batch read it at an instant when it was not expired.
  \<^verbatim>\<open>keys\<close> and \<^verbatim>\<open>updateTTL\<close> do not look at \<^verbatim>\<open>expiresAt\<close>: the key is among \<^verbatim>\<open>keys()\<close>, and
  \<^verbatim>\<open>updateTTL\<close> returns true and leaves the entry resident with \<^verbatim>\<open>expiresAt = now + ttl\<close>.
\<close>

theorem expired_entry_removed_by_reads:
  assumes "map_of (store s) key = Some entry" and "isExpired entry now"
  shows "fst (engine_get key now s) = JNull \<and>
         map_of (store (snd (engine_get key now s))) key = None \<and>
         fst (engine_exists key now s) = False \<and>
         map_of (store (snd (engine_exists key now s))) key = None \<and>
         ((key, now) \<in> set ks \<longrightarrow> map_of (store (snd (getMultiple ks s))) key = None) \<and>
         ((\<forall>n. (key, n) \<in> set ks \<longrightarrow> isExpired entry n) \<longrightarrow>
            key \<notin> fst ` set (fst (getMultiple ks s))) \<and>
         key \<in> set (engine_keys s) \<and>
         fst (updateTTL key ttl now s) = True \<and>
         map_of (store (snd (updateTTL key ttl now s))) key
           = Some (entry\<lparr>expiresAt := Some (now + ttl)\<rparr>)"
proof -
  have 1: "fst (engine_get key now s) = JNull"
    "map_of (store (snd (engine_get key now s))) key = None"
    using engine_get_expired [OF assms] by simp_all
  have 2: "fst (engine_exists key now s) = False"
    "map_of (store (snd (engine_exists key now s))) key = None"
    using engine_exists_expired [OF assms] by simp_all
  have 3: "(key, now) \<in> set ks \<longrightarrow> map_of (store (snd (getMultiple ks s))) key = None"
    using getMultiple_loop_removes [OF assms] by (simp add: getMultiple_def)
  have 4: "(\<forall>n. (key, n) \<in> set ks \<longrightarrow> isExpired entry n) \<longrightarrow>
            key \<notin> fst ` set (fst (getMultiple ks s))"
    using getMultiple_loop_omits [of s key entry ks "[]"] assms(1) by (simp add: getMultiple_def)
  have 5: "key \<in> set (engine_keys s)"
    using map_of_Some_keys [OF assms(1)] by (simp add: engine_keys_def)
  have 6: "fst (updateTTL key ttl now s) = True"
    "map_of (store (snd (updateTTL key ttl now s))) key = Some (entry\<lparr>expiresAt := Some (now + ttl)\<rparr>)"
    using assms(1) by (simp_all add: updateTTL_def AList.update_conv')
  show ?thesis using 1 2 3 4 5 6 by blast
qed

lemma expiring_state_store:
  "store expiring_state = [(''k'', \<lparr>entry_value = JStr ''v'', expiresAt = Some 1000, entry_size = 66\<rparr>)]"
  by (simp add: expiring_state_def small_config_def engine_defs)

theorem expired_entry_removed_by_reads_witness:
  "map_of (store expiring_state) ''k''
     = Some \<lparr>entry_value = JStr ''v'', expiresAt = Some 1000, entry_size = 66\<rparr> \<and>
   isExpired \<lparr>entry_value = JStr ''v'' :: int json, expiresAt = Some 1000, entry_size = 66\<rparr> 2000 \<and>
   fst (engine_get ''k'' 2000 expiring_state) = JNull \<and>
   map_of (store (snd (engine_get ''k'' 2000 expiring_state))) ''k'' = None \<and>
   fst (engine_exists ''k'' 2000 expiring_state) = False \<and>
   map_of (store (snd (getMultiple [(''k'', 2000)] expiring_state))) ''k'' = None \<and>
   ''k'' \<notin> fst ` set (fst (getMultiple [(''k'', 2000)] expiring_state))"
proof -
  have h: "map_of (store expiring_state) ''k''
     = Some \<lparr>entry_value = JStr ''v'', expiresAt = Some 1000, entry_size = 66\<rparr>"
    "isExpired \<lparr>entry_value = JStr ''v'' :: int json, expiresAt = Some 1000, entry_size = 66\<rparr> 2000"
    by (simp_all add: expiring_state_store isExpired_def)
  show ?thesis
    using h expired_entry_removed_by_reads [OF h, of "[(''k'', 2000)]" 0] by simp
qed

text \<open>
  C6 as stated fails for UPDATE-TTL and KEYS: with key \<open>k\<close> set at instant 0 with a ttl of
  1000, at instant 2000 \<^verbatim>\<open>keys()\<close> lists \<open>k\<close>, and \<^verbatim>\<open>updateTTL(k, 5000)\<close> returns true and leaves
  \<open>k\<close> resident with \<^verbatim>\<open>expiresAt = 7000\<close>.
\<close>

theorem expired_key_seen_by_updateTTL_and_keys:
  "store expiring_state
     = [(''k'', \<lparr>entry_value = JStr ''v'', expiresAt = Some 1000, entry_size = 66\<rparr>)] \<and>
   isExpired \<lparr>entry_value = JStr ''v'' :: int json, expiresAt = Some 1000, entry_size = 66\<rparr> 2000 \<and>
   engine_keys expiring_state = [''k''] \<and>
   fst (updateTTL ''k'' 5000 2000 expiring_state) = True \<and>
   store (snd (updateTTL ''k'' 5000 2000 expiring_state))
     = [(''k'', \<lparr>entry_value = JStr ''v'', expiresAt = Some 7000, entry_size = 66\<rparr>)]"
  by (simp add: expiring_state_store isExpired_def engine_keys_def updateTTL_def)

subsection \<open>increment and \<^verbatim>\<open>null\<close>\<close>

lemma increment_missing:
  "fst (engine_get key now s) = JNull \<Longrightarrow>
     increment key amount now s =
       (Inr amount, snd (engine_set key (JNum amount) None now (snd (engine_get key now s))))"
  by (simp add: increment_def split_beta)

lemma increment_number:
  "fst (engine_get key now s) = JNum n \<Longrightarrow>
     increment key amount now s =
       (Inr (n + amount),
        snd (engine_set key (JNum (n + amount)) None now (snd (engine_get key now s))))"
  by (simp add: increment_def split_beta Let_def)

lemma increment_other:
  "fst (engine_get key now s) \<noteq> JNull \<Longrightarrow> \<forall>n. fst (engine_get key now s) \<noteq> JNum n \<Longrightarrow>
     increment key amount now s = (Inl NonNumericValue, snd (engine_get key now s))"
  by (cases "fst (engine_get key now s)") (simp_all add: increment_def split_beta)

lemma set_after_get_stores:
  assumes "policy_ok (evictionPolicy s)"
  shows "map_of (store (snd (engine_set key v None now' (snd (engine_get key now s))))) key
           = Some \<lparr>entry_value = v, expiresAt = None, entry_size = calculateEntrySize key v\<rparr>"
  using engine_set_stores [OF engine_get_policy_ok [OF assms],
      where key = key and v = v and ttl = None and now = now']
  by (simp add: new_entry_def)

text \<open>
  C10. In every state that a sequence of public operations reaches, for a resident, unexpired
  key whose stored value is \<^verbatim>\<open>null\<close>: \<^verbatim>\<open>get\<close> returns \<open>JNull\<close>, which is also what it returns for
  every absent key; it counts a hit and no miss and leaves the store as it is; no batch get
  reports the key; and \<^verbatim>\<open>increment\<close> raises no error, returns the amount and leaves the key
  holding the amount.
\<close>

theorem null_value_reads_as_miss:
  assumes "s = run cfg ops" and "map_of (store s) key = Some entry"
    and "entry_value entry = JNull" and "\<not> isExpired entry now"
  shows "fst (engine_get key now s) = JNull \<and>
         (\<forall>k. map_of (store s) k = None \<longrightarrow> fst (engine_get k now s) = JNull) \<and>
         hits (stats (snd (engine_get key now s))) = hits (stats s) + 1 \<and>
         misses (stats (snd (engine_get key now s))) = misses (stats s) \<and>
         store (snd (engine_get key now s)) = store s \<and>
         key \<notin> fst ` set (fst (getMultiple ks s)) \<and>
         fst (increment key amount now s) = Inr amount \<and>
         map_of (store (snd (increment key amount now s))) key
           = Some \<lparr>entry_value = JNum amount, expiresAt = None,
                   entry_size = calculateEntrySize key (JNum amount)\<rparr>"
proof -
  have ok: "policy_ok (evictionPolicy s)" using assms(1) by (simp add: run_policy_ok)
  have g: "engine_get key now s =
           (JNull, s\<lparr>evictionPolicy := snd (policy_get key (evictionPolicy s)),
                     stats := recordHit now (stats s)\<rparr>)"
    using engine_get_live [OF assms(2,4)] assms(3) by simp
  have 1: "fst (engine_get key now s) = JNull" using g by simp
  have 2: "\<forall>k. map_of (store s) k = None \<longrightarrow> fst (engine_get k now s) = JNull"
    by (simp add: engine_get_absent)
  have 3: "hits (stats (snd (engine_get key now s))) = hits (stats s) + 1"
    "misses (stats (snd (engine_get key now s))) = misses (stats s)"
    "store (snd (engine_get key now s)) = store s"
    using g by (simp_all add: recordHit_def recordOperation_def)
  have 4: "key \<notin> fst ` set (fst (getMultiple ks s))"
    using getMultiple_loop_omits [of s key entry ks "[]"] assms(2,3) by (simp add: getMultiple_def)
  have 5: "fst (increment key amount now s) = Inr amount"
    "map_of (store (snd (increment key amount now s))) key
           = Some \<lparr>entry_value = JNum amount, expiresAt = None,
                   entry_size = calculateEntrySize key (JNum amount)\<rparr>"
    using increment_missing [OF 1, of amount] set_after_get_stores [OF ok] by simp_all
  show ?thesis using 1 2 3 4 5 by blast
qed

lemma null_state_store:
  "store null_state = [(''n'', \<lparr>entry_value = JNull, expiresAt = None, entry_size = 73\<rparr>)]"
  by (simp add: null_state_def small_config_def engine_defs)

theorem null_value_reads_as_miss_witness:
  "map_of (store null_state) ''n'' = Some \<lparr>entry_value = JNull, expiresAt = None, entry_size = 73\<rparr> \<and>
   fst (engine_get ''n'' 5 null_state) = JNull \<and>
   hits (stats (snd (engine_get ''n'' 5 null_state))) = hits (stats null_state) + 1 \<and>
   store (snd (engine_get ''n'' 5 null_state)) = store null_state \<and>
   ''n'' \<notin> fst ` set (fst (getMultiple [(''n'', 5)] null_state)) \<and>
   fst (increment ''n'' 7 5 null_state) = Inr 7 \<and>
   map_of (store (snd (increment ''n'' 7 5 null_state))) ''n''
     = Some \<lparr>entry_value = JNum 7, expiresAt = None, entry_size = 73\<rparr>"
proof -
  have h: "map_of (store null_state) ''n'' = Some \<lparr>entry_value = JNull, expiresAt = None, entry_size = 73\<rparr>"
    "entry_value \<lparr>entry_value = JNull, expiresAt = None, entry_size = 73\<rparr> = (JNull :: int json)"
    "\<not> isExpired \<lparr>entry_value = (JNull :: int json), expiresAt = None, entry_size = 73\<rparr> 5"
    by (simp_all add: null_state_store isExpired_def)
  show ?thesis
    using h(1) null_value_reads_as_miss [OF null_state_def h, of "[(''n'', 5)]" 7]
    by (simp add: calculateEntrySize_def)
qed

text \<open>
  C7, amended. In every state that a sequence of public operations reaches:
  \<^verbatim>\<open>increment(k, a)\<close> on a key that is absent or expired returns \<open>a\<close> and leaves \<open>k\<close> holding
  \<open>a\<close>; on a live key holding the number \<open>v\<close> it returns \<open>v + a\<close> and leaves \<open>k\<close> holding
  \<open>v + a\<close>; on a live key holding a value that is neither \<^verbatim>\<open>null\<close> nor a number it fails with
  the type error, and the state is the one its \<^verbatim>\<open>get\<close> left: the store and the memory
  accounting unchanged, the access registered with the policy and a hit recorded.
\<close>

theorem increment_cases:
  assumes "s = run cfg ops"
  shows "(map_of (store s) key = None \<or> (\<exists>e. map_of (store s) key = Some e \<and> isExpired e now) \<longrightarrow>
            fst (increment key amount now s) = Inr amount \<and>
            map_of (store (snd (increment key amount now s))) key
              = Some \<lparr>entry_value = JNum amount, expiresAt = None,
                      entry_size = calculateEntrySize key (JNum amount)\<rparr>) \<and>
         (\<forall>e v. map_of (store s) key = Some e \<and> \<not> isExpired e now \<and> entry_value e = JNum v \<longrightarrow>
            fst (increment key amount now s) = Inr (v + amount) \<and>
            map_of (store (snd (increment key amount now s))) key
              = Some \<lparr>entry_value = JNum (v + amount), expiresAt = None,
                      entry_size = calculateEntrySize key (JNum (v + amount))\<rparr>) \<and>
         (\<forall>e. map_of (store s) key = Some e \<and> \<not> isExpired e now \<and>
              entry_value e \<noteq> JNull \<and> (\<forall>v. entry_value e \<noteq> JNum v) \<longrightarrow>
            increment key amount now s =
              (Inl NonNumericValue,
               s\<lparr>evictionPolicy := snd (policy_get key (evictionPolicy s)),
                 stats := recordHit now (stats s)\<rparr>))"
proof -
  have ok: "policy_ok (evictionPolicy s)" using assms by (simp add: run_policy_ok)
  have missing: "fst (increment key amount now s) = Inr amount \<and>
            map_of (store (snd (increment key amount now s))) key
              = Some \<lparr>entry_value = JNum amount, expiresAt = None,
                      entry_size = calculateEntrySize key (JNum amount)\<rparr>"
    if "fst (engine_get key now s) = JNull"
    using increment_missing [OF that, of amount] set_after_get_stores [OF ok] by simp
  have 1: "map_of (store s) key = None \<or> (\<exists>e. map_of (store s) key = Some e \<and> isExpired e now) \<longrightarrow>
            fst (increment key amount now s) = Inr amount \<and>
            map_of (store (snd (increment key amount now s))) key
              = Some \<lparr>entry_value = JNum amount, expiresAt = None,
                      entry_size = calculateEntrySize key (JNum amount)\<rparr>"
    using missing engine_get_absent [of s key now] engine_get_expired(1) [of s key _ now]
    by auto
  have 2: "\<forall>e v. map_of (store s) key = Some e \<and> \<not> isExpired e now \<and> entry_value e = JNum v \<longrightarrow>
            fst (increment key amount now s) = Inr (v + amount) \<and>
            map_of (store (snd (increment key amount now s))) key
              = Some \<lparr>entry_value = JNum (v + amount), expiresAt = None,
                      entry_size = calculateEntrySize key (JNum (v + amount))\<rparr>"
  proof (intro allI impI)
    fix e v
    assume h: "map_of (store s) key = Some e \<and> \<not> isExpired e now \<and> entry_value e = JNum v"
    then have "fst (engine_get key now s) = JNum v" using engine_get_live [of s key e now] by simp
    then show "fst (increment key amount now s) = Inr (v + amount) \<and>
            map_of (store (snd (increment key amount now s))) key
              = Some \<lparr>entry_value = JNum (v + amount), expiresAt = None,
                      entry_size = calculateEntrySize key (JNum (v + amount))\<rparr>"
      using increment_number [of key now s v amount] set_after_get_stores [OF ok] by simp
  qed
  have 3: "\<forall>e. map_of (store s) key = Some e \<and> \<not> isExpired e now \<and>
              entry_value e \<noteq> JNull \<and> (\<forall>v. entry_value e \<noteq> JNum v) \<longrightarrow>
            increment key amount now s =
              (Inl NonNumericValue,
               s\<lparr>evictionPolicy := snd (policy_get key (evictionPolicy s)),
                 stats := recordHit now (stats s)\<rparr>)"
  proof (intro allI impI)
    fix e
    assume h: "map_of (store s) key = Some e \<and> \<not> isExpired e now \<and>
              entry_value e \<noteq> JNull \<and> (\<forall>v. entry_value e \<noteq> JNum v)"
    then have g: "engine_get key now s =
           (entry_value e, s\<lparr>evictionPolicy := snd (policy_get key (evictionPolicy s)),
                              stats := recordHit now (stats s)\<rparr>)"
      using engine_get_live [of s key e now] by simp
    then show "increment key amount now s =
              (Inl NonNumericValue,
               s\<lparr>evictionPolicy := snd (policy_get key (evictionPolicy s)),
                 stats := recordHit now (stats s)\<rparr>)"
      using increment_other [of key now s amount] h by simp
  qed
  show ?thesis using 1 2 3 by blast
qed

lemma counter_state_store:
  "store counter_state = [(''counter'', \<lparr>entry_value = JNum 5, expiresAt = None, entry_size = 79\<rparr>)]"
  by (simp add: counter_state_def small_config_def engine_defs)

theorem increment_cases_witness:
  "map_of (store counter_state) ''counter''
     = Some \<lparr>entry_value = JNum 5, expiresAt = None, entry_size = 79\<rparr> \<and>
   fst (increment ''counter'' 3 1 counter_state) = Inr 8 \<and>
   map_of (store (snd (increment ''counter'' 3 1 counter_state))) ''counter''
     = Some \<lparr>entry_value = JNum 8, expiresAt = None, entry_size = 79\<rparr> \<and>
   map_of (store counter_state) ''fresh'' = None \<and>
   fst (increment ''fresh'' 3 1 counter_state) = Inr 3"
proof -
  have h: "map_of (store counter_state) ''counter''
     = Some \<lparr>entry_value = JNum 5, expiresAt = None, entry_size = 79\<rparr>"
    "\<not> isExpired \<lparr>entry_value = JNum 5 :: int json, expiresAt = None, entry_size = 79\<rparr> 1"
    "map_of (store counter_state) ''fresh'' = None"
    by (simp_all add: counter_state_store isExpired_def)
  show ?thesis
    using h increment_cases [OF counter_state_def, of "''counter''" 1 3]
      increment_cases [OF counter_state_def, of "''fresh''" 1 3]
    by (simp add: calculateEntrySize_def)
qed

text \<open>
  C7 as stated fails in its third case. On a key holding the string \<open>hello\<close> the call fails
  with the type error, but the state has changed: the \<^verbatim>\<open>get\<close> inside has recorded a hit. On a
  key holding \<^verbatim>\<open>null\<close>, a present non-numeric value, the call does not fail: it returns the
  amount.
\<close>

theorem increment_error_changes_state:
  "fst (increment ''text'' 1 5 text_state) = Inl NonNumericValue \<and>
   hits (stats text_state) = 0 \<and>
   hits (stats (snd (increment ''text'' 1 5 text_state))) = 1 \<and>
   snd (increment ''text'' 1 5 text_state) \<noteq> text_state \<and>
   fst (increment ''n'' 1 5 text_state) = Inr 1"
proof -
  have 1: "fst (increment ''text'' 1 5 text_state) = Inl NonNumericValue"
    "hits (stats text_state) = 0"
    "hits (stats (snd (increment ''text'' 1 5 text_state))) = 1"
    by (simp_all add: text_state_def small_config_def increment_def engine_defs)
  then have 2: "snd (increment ''text'' 1 5 text_state) \<noteq> text_state" by auto
  have 3: "fst (increment ''n'' 1 5 text_state) = Inr 1"
    by (simp add: text_state_def small_config_def increment_def engine_defs split_beta)
  show ?thesis using 1 2 3 by blast
qed

section \<open>Further properties of the engine\<close>

lemma policy_size_keys: "policy_size pol = length (policy_keys pol)"
  by (cases pol) (simp_all add: policy_size_def policy_keys_def lru_size_def lfu_size_def fifo_size_def)

lemma policy_ok_distinct: "policy_ok pol \<Longrightarrow> distinct (policy_keys pol)"
  by (cases pol) (simp_all add: policy_ok_def policy_keys_def)

text \<open>
  With \<^verbatim>\<open>maxKeys\<close> other than 0 and non-empty keys, in every state that a sequence of public
  operations reaches, under each of the three policies: the policy and the primary map
  hold the same keys, \<^verbatim>\<open>policy.size()\<close> is the size of the primary map, and
  \<^verbatim>\<open>currentMemoryBytes\<close> is the sum of the sizes of the resident entries.
\<close>

theorem store_and_policy_agree:
  assumes "maxKeys cfg \<noteq> 0" and "list_all nonempty_keys ops"
  shows "set (policy_keys (evictionPolicy (run cfg ops))) = set (engine_keys (run cfg ops)) \<and>
         policy_size (evictionPolicy (run cfg ops)) = length (store (run cfg ops)) \<and>
         currentMemoryBytes (run cfg ops) = store_bytes (store (run cfg ops))"
proof -
  let ?s = "run cfg ops"
  have inv: "engine_inv ?s" using assms by (rule run_inv)
  then have keys: "set (policy_keys (evictionPolicy ?s)) = set (engine_keys ?s)"
    and bytes: "currentMemoryBytes ?s = store_bytes (store ?s)"
    and d1: "distinct (engine_keys ?s)"
    and d2: "distinct (policy_keys (evictionPolicy ?s))"
    by (simp_all add: engine_inv_def engine_keys_def policy_ok_distinct)
  have "length (policy_keys (evictionPolicy ?s)) = length (engine_keys ?s)"
    using keys d1 d2 by (metis distinct_card)
  then have "policy_size (evictionPolicy ?s) = length (store ?s)"
    by (simp add: policy_size_keys engine_keys_def)
  then show ?thesis using keys bytes by simp
qed

theorem store_and_policy_agree_witness:
  "maxKeys small_config \<noteq> 0 \<and>
   list_all nonempty_keys [Set ''a'' (JNum (1::int)) None 0, Set ''b'' (JNum 2) None 0, Delete ''a''] \<and>
   engine_keys (run small_config [Set ''a'' (JNum (1::int)) None 0, Set ''b'' (JNum 2) None 0, Delete ''a'']) = [''b''] \<and>
   policy_size (evictionPolicy (run small_config [Set ''a'' (JNum (1::int)) None 0, Set ''b'' (JNum 2) None 0, Delete ''a''])) = 1 \<and>
   set (policy_keys (evictionPolicy (run small_config [Set ''a'' (JNum (1::int)) None 0, Set ''b'' (JNum 2) None 0, Delete ''a''])))
     = {''b''}"
proof -
  have h: "maxKeys small_config \<noteq> 0"
    "list_all nonempty_keys [Set ''a'' (JNum (1::int)) None 0, Set ''b'' (JNum 2) None 0, Delete ''a'']"
    by (simp_all add: small_config_def)
  have k: "engine_keys (run small_config [Set ''a'' (JNum (1::int)) None 0, Set ''b'' (JNum 2) None 0, Delete ''a'']) = [''b'']"
    "length (store (run small_config [Set ''a'' (JNum (1::int)) None 0, Set ''b'' (JNum 2) None 0, Delete ''a''])) = 1"
    by (simp_all add: small_config_def engine_defs engine_keys_def)
  show ?thesis using h k store_and_policy_agree [OF h] by (simp add: engine_keys_def)
qed

text \<open>A second \<^verbatim>\<open>delete\<close> of the same key returns false and changes nothing.\<close>

theorem delete_twice:
  "engine_delete key (snd (engine_delete key s)) = (False, snd (engine_delete key s))"
  using engine_delete_absent [of key s] by (simp add: engine_delete_def [of key "snd (engine_delete key s)"])

text \<open>
  In every reachable state, \<^verbatim>\<open>set(k, v, ttl)\<close> at instant \<open>now\<close> followed by \<^verbatim>\<open>get(k)\<close> at
  instant \<open>now'\<close> returns \<open>v\<close> when there is no ttl or \<open>now' \<le> now + ttl\<close>; strictly after
  the ttl it returns the miss value, removes the entry and counts one expiration.
\<close>

theorem set_then_get:
  assumes "s = run cfg ops"
  shows "((case ttl of None \<Rightarrow> True | Some t \<Rightarrow> now' \<le> now + t) \<longrightarrow>
            fst (engine_get key now' (snd (engine_set key v ttl now s))) = v) \<and>
         (\<forall>t. ttl = Some t \<and> t \<noteq> 0 \<and> now + t < now' \<longrightarrow>
            fst (engine_get key now' (snd (engine_set key v ttl now s))) = JNull \<and>
            map_of (store (snd (engine_get key now' (snd (engine_set key v ttl now s))))) key = None \<and>
            expirations (stats (snd (engine_get key now' (snd (engine_set key v ttl now s)))))
              = expirations (stats (snd (engine_set key v ttl now s))) + 1)"
proof -
  let ?s1 = "snd (engine_set key v ttl now s)"
  have ok: "policy_ok (evictionPolicy s)" using assms by (simp add: run_policy_ok)
  have st: "map_of (store ?s1) key = Some (new_entry key v ttl now)"
    by (rule engine_set_stores [OF ok])
  have 1: "(case ttl of None \<Rightarrow> True | Some t \<Rightarrow> now' \<le> now + t) \<longrightarrow>
            fst (engine_get key now' ?s1) = v"
  proof
    assume "case ttl of None \<Rightarrow> True | Some t \<Rightarrow> now' \<le> now + t"
    then have "\<not> isExpired (new_entry key v ttl now) now'"
      by (auto simp: isExpired_def new_entry_def split: option.splits)
    then show "fst (engine_get key now' ?s1) = v"
      using engine_get_live [OF st] by (simp add: new_entry_def)
  qed
  have 2: "\<forall>t. ttl = Some t \<and> t \<noteq> 0 \<and> now + t < now' \<longrightarrow>
            fst (engine_get key now' ?s1) = JNull \<and>
            map_of (store (snd (engine_get key now' ?s1))) key = None \<and>
            expirations (stats (snd (engine_get key now' ?s1))) = expirations (stats ?s1) + 1"
  proof (intro allI impI)
    fix t assume "ttl = Some t \<and> t \<noteq> 0 \<and> now + t < now'"
    then have "isExpired (new_entry key v ttl now) now'"
      by (simp add: isExpired_def new_entry_def)
    then show "fst (engine_get key now' ?s1) = JNull \<and>
            map_of (store (snd (engine_get key now' ?s1))) key = None \<and>
            expirations (stats (snd (engine_get key now' ?s1))) = expirations (stats ?s1) + 1"
      using engine_get_expired [OF st] by simp
  qed
  show ?thesis using 1 2 by blast
qed

theorem set_then_get_witness:
  "fst (engine_get ''k'' 500 (snd (engine_set ''k'' (JStr ''v'') (Some 1000) 0
        (run small_config ([] :: int operation list))))) = JStr ''v'' \<and>
   fst (engine_get ''k'' 1100 (snd (engine_set ''k'' (JStr ''v'') (Some 1000) 0
        (run small_config ([] :: int operation list))))) = JNull"
  using set_then_get [OF refl, where ttl = "Some 1000" and now' = 500 and now = 0 and key = "''k''"
      and v = "JStr ''v''" and cfg = small_config and ops = "[] :: int operation list"]
    set_then_get [OF refl, where ttl = "Some 1000" and now' = 1100 and now = 0 and key = "''k''"
      and v = "JStr ''v''" and cfg = small_config and ops = "[] :: int operation list"]
  by simp

text \<open>In every reachable state, two increments by \<open>a\<close> of an absent key return \<open>a\<close> and \<open>a + a\<close>.\<close>

theorem increment_twice:
  assumes "s = run cfg ops" and "map_of (store s) key = None"
  shows "fst (increment key a now s) = Inr a \<and>
         fst (increment key a now' (snd (increment key a now s))) = Inr (a + a)"
proof -
  let ?s1 = "snd (increment key a now s)"
  have ok: "policy_ok (evictionPolicy s)" using assms(1) by (simp add: run_policy_ok)
  have g: "fst (engine_get key now s) = JNull" using engine_get_absent [OF assms(2)] by simp
  have 1: "fst (increment key a now s) = Inr a"
    and st: "map_of (store ?s1) key
       = Some \<lparr>entry_value = JNum a, expiresAt = None, entry_size = calculateEntrySize key (JNum a)\<rparr>"
    using increment_missing [OF g, of a] set_after_get_stores [OF ok] by simp_all
  have "fst (engine_get key now' ?s1) = JNum a"
    using engine_get_live [OF st, of now'] by (simp add: isExpired_def)
  then have "fst (increment key a now' ?s1) = Inr (a + a)"
    using increment_number [of key now' ?s1 a a] by simp
  then show ?thesis using 1 by simp
qed

theorem increment_twice_witness:
  "map_of (store (run small_config ([] :: int operation list))) ''counter'' = None \<and>
   fst (increment ''counter'' 3 0 (run small_config ([] :: int operation list))) = Inr 3 \<and>
   fst (increment ''counter'' 3 1 (snd (increment ''counter'' 3 0
          (run small_config ([] :: int operation list))))) = Inr 6"
proof -
  have h: "map_of (store (run small_config ([] :: int operation list))) ''counter'' = None"
    by (simp add: run_def new_CacheEngine_def)
  show ?thesis using h increment_twice [OF refl h, of 3 0 1] by simp
qed

end
